theory Spec2Isabelle
  imports Main "HOL-Library.Word" "HOL-Library.Signed_Division"
begin

unbundle bit_operations_syntax

section \<open>The JIT compiler front end (vm/compiler/Frontend.c)\<close>

text \<open>
  A shallow embedding of the four functions of \<^verbatim>\<open>Frontend.c\<close>: \<^verbatim>\<open>parseInsn\<close>,
  \<^verbatim>\<open>findBlockBoundary\<close>, \<^verbatim>\<open>isUnconditionalBranch\<close>, \<^verbatim>\<open>dvmCompileTrace\<close> and
  \<^verbatim>\<open>dvmCompileMethod\<close>. C's \<^verbatim>\<open>u2\<close> is a 16-bit word, \<^verbatim>\<open>unsigned int\<close> a 32-bit
  word; \<^verbatim>\<open>int\<close> counters that provably stay small are HOL integers.
\<close>

type_synonym u2 = "16 word"
type_synonym u4 = "32 word"

subsection \<open>Constants of the headers the file includes\<close>

text \<open>
  Modelled from the spec: \<^verbatim>\<open>enum OpCode\<close> is declared in \<^verbatim>\<open>libdex/OpCode.h\<close>, which is
  not among the sources. An opcode is the low byte of an instruction's first code unit;
  the names below are the ones \<^verbatim>\<open>Frontend.c\<close> mentions, with the values of the Dalvik
  instruction set.
\<close>

type_synonym OpCode = "8 word"

definition OP_NOP :: OpCode where "OP_NOP = 0x00"
definition OP_RETURN_VOID :: OpCode where "OP_RETURN_VOID = 0x0e"
definition OP_RETURN :: OpCode where "OP_RETURN = 0x0f"
definition OP_RETURN_WIDE :: OpCode where "OP_RETURN_WIDE = 0x10"
definition OP_RETURN_OBJECT :: OpCode where "OP_RETURN_OBJECT = 0x11"
definition OP_THROW :: OpCode where "OP_THROW = 0x27"
definition OP_GOTO :: OpCode where "OP_GOTO = 0x28"
definition OP_GOTO_16 :: OpCode where "OP_GOTO_16 = 0x29"
definition OP_GOTO_32 :: OpCode where "OP_GOTO_32 = 0x2a"
definition OP_PACKED_SWITCH :: OpCode where "OP_PACKED_SWITCH = 0x2b"
definition OP_SPARSE_SWITCH :: OpCode where "OP_SPARSE_SWITCH = 0x2c"
definition OP_IF_EQ :: OpCode where "OP_IF_EQ = 0x32"
definition OP_IF_NE :: OpCode where "OP_IF_NE = 0x33"
definition OP_IF_LT :: OpCode where "OP_IF_LT = 0x34"
definition OP_IF_GE :: OpCode where "OP_IF_GE = 0x35"
definition OP_IF_GT :: OpCode where "OP_IF_GT = 0x36"
definition OP_IF_LE :: OpCode where "OP_IF_LE = 0x37"
definition OP_IF_EQZ :: OpCode where "OP_IF_EQZ = 0x38"
definition OP_IF_NEZ :: OpCode where "OP_IF_NEZ = 0x39"
definition OP_IF_LTZ :: OpCode where "OP_IF_LTZ = 0x3a"
definition OP_IF_GEZ :: OpCode where "OP_IF_GEZ = 0x3b"
definition OP_IF_GTZ :: OpCode where "OP_IF_GTZ = 0x3c"
definition OP_IF_LEZ :: OpCode where "OP_IF_LEZ = 0x3d"
definition OP_INVOKE_VIRTUAL :: OpCode where "OP_INVOKE_VIRTUAL = 0x6e"
definition OP_INVOKE_SUPER :: OpCode where "OP_INVOKE_SUPER = 0x6f"
definition OP_INVOKE_DIRECT :: OpCode where "OP_INVOKE_DIRECT = 0x70"
definition OP_INVOKE_STATIC :: OpCode where "OP_INVOKE_STATIC = 0x71"
definition OP_INVOKE_INTERFACE :: OpCode where "OP_INVOKE_INTERFACE = 0x72"
definition OP_INVOKE_VIRTUAL_RANGE :: OpCode where "OP_INVOKE_VIRTUAL_RANGE = 0x74"
definition OP_INVOKE_SUPER_RANGE :: OpCode where "OP_INVOKE_SUPER_RANGE = 0x75"
definition OP_INVOKE_DIRECT_RANGE :: OpCode where "OP_INVOKE_DIRECT_RANGE = 0x76"
definition OP_INVOKE_STATIC_RANGE :: OpCode where "OP_INVOKE_STATIC_RANGE = 0x77"
definition OP_INVOKE_INTERFACE_RANGE :: OpCode where "OP_INVOKE_INTERFACE_RANGE = 0x78"
definition OP_INVOKE_VIRTUAL_QUICK :: OpCode where "OP_INVOKE_VIRTUAL_QUICK = 0xf8"
definition OP_INVOKE_VIRTUAL_QUICK_RANGE :: OpCode where "OP_INVOKE_VIRTUAL_QUICK_RANGE = 0xf9"
definition OP_INVOKE_SUPER_QUICK :: OpCode where "OP_INVOKE_SUPER_QUICK = 0xfa"
definition OP_INVOKE_SUPER_QUICK_RANGE :: OpCode where "OP_INVOKE_SUPER_QUICK_RANGE = 0xfb"

lemmas opcode_defs =
  OP_NOP_def OP_RETURN_VOID_def OP_RETURN_def OP_RETURN_WIDE_def OP_RETURN_OBJECT_def
  OP_THROW_def OP_GOTO_def OP_GOTO_16_def OP_GOTO_32_def OP_PACKED_SWITCH_def
  OP_SPARSE_SWITCH_def OP_IF_EQ_def OP_IF_NE_def OP_IF_LT_def OP_IF_GE_def OP_IF_GT_def
  OP_IF_LE_def OP_IF_EQZ_def OP_IF_NEZ_def OP_IF_LTZ_def OP_IF_GEZ_def OP_IF_GTZ_def
  OP_IF_LEZ_def OP_INVOKE_VIRTUAL_def OP_INVOKE_SUPER_def OP_INVOKE_DIRECT_def
  OP_INVOKE_STATIC_def OP_INVOKE_INTERFACE_def OP_INVOKE_VIRTUAL_RANGE_def
  OP_INVOKE_SUPER_RANGE_def OP_INVOKE_DIRECT_RANGE_def OP_INVOKE_STATIC_RANGE_def
  OP_INVOKE_INTERFACE_RANGE_def OP_INVOKE_VIRTUAL_QUICK_def
  OP_INVOKE_VIRTUAL_QUICK_RANGE_def OP_INVOKE_SUPER_QUICK_def
  OP_INVOKE_SUPER_QUICK_RANGE_def

text \<open>
  Modelled from the spec: the three reserved signature values of inline data and the
  control-flow flag bits of an opcode are declared in \<^verbatim>\<open>libdex/InstrUtils.h\<close>, which is
  not among the sources. The signatures are no-op opcodes with a non-zero high byte.
\<close>

definition kPackedSwitchSignature :: u2 where "kPackedSwitchSignature = 0x0100"
definition kSparseSwitchSignature :: u2 where "kSparseSwitchSignature = 0x0200"
definition kArrayDataSignature :: u2 where "kArrayDataSignature = 0x0300"

definition kInstrCanBranch :: u4 where "kInstrCanBranch = 1"
definition kInstrCanContinue :: u4 where "kInstrCanContinue = 2"
definition kInstrCanSwitch :: u4 where "kInstrCanSwitch = 4"
definition kInstrCanThrow :: u4 where "kInstrCanThrow = 8"
definition kInstrCanReturn :: u4 where "kInstrCanReturn = 16"
definition kInstrInvoke :: u4 where "kInstrInvoke = 32"
definition kInstrUnconditional :: u4 where "kInstrUnconditional = 64"

lemmas flag_defs =
  kInstrCanBranch_def kInstrCanContinue_def kInstrCanSwitch_def kInstrCanThrow_def
  kInstrCanReturn_def kInstrInvoke_def kInstrUnconditional_def

subsection \<open>Data\<close>

text \<open>
  The fields of \<^verbatim>\<open>DecodedInstruction\<close>, \<^verbatim>\<open>MIR\<close>, \<^verbatim>\<open>Method\<close>, \<^verbatim>\<open>ClassObject\<close> and
  \<^verbatim>\<open>DexCode\<close> that the front end reads or writes. Memory the front end only reads
  through a pointer (the code units of a method, the resolved-method table of the
  caller's dex file, the dispatch table of the caller's superclass) is a function from
  the index to the value stored there: C checks no bound.
\<close>

record DecodedInstruction =
  vA :: u4
  vB :: u4
  vC :: u4
  opCode :: OpCode

record MIR =
  dalvikInsn :: DecodedInstruction
  width :: int
  offset :: u4

record Method =
  name :: string
  methodIndex :: nat
  accNative :: bool
  insnsPtr :: u4

record ClassObject =
  descriptor :: string
  pResMethods :: "nat \<Rightarrow> Method"
  superVtable :: "nat \<Rightarrow> Method"

record DexCode =
  insnsSize :: nat
  insns :: "nat \<Rightarrow> u2"

record CallerMethod = Method +
  clazz :: ClassObject
  dexCode :: DexCode

text \<open>
  \<^verbatim>\<open>gDvm\<close>: the decode tables. \<^verbatim>\<open>instrWidth\<close> is the signed per-opcode width table,
  \<^verbatim>\<open>instrFlags\<close> the per-opcode flag table read by \<^verbatim>\<open>dexGetInstrFlags\<close>, and
  \<^verbatim>\<open>dexDecodeInstruction\<close> the operand decoder driven by \<^verbatim>\<open>instrFormat\<close>; all three
  live outside \<^verbatim>\<open>Frontend.c\<close> and are parameters here. The decoder gets the code
  and the position of the instruction.
\<close>

record DvmGlobals =
  instrWidth :: "OpCode \<Rightarrow> int"
  instrFlags :: "OpCode \<Rightarrow> u4"
  dexDecodeInstruction :: "(nat \<Rightarrow> u2) \<Rightarrow> nat \<Rightarrow> DecodedInstruction"

definition dvmIsNativeMethod :: "Method \<Rightarrow> bool" where
  "dvmIsNativeMethod m = accNative m"

subsection \<open>parseInsn\<close>

text \<open>
  \<^verbatim>\<open>codePtr\<close> is the code array and a position in it. The three signature branches
  compute a width and the statement after them overwrites it with 0, as in the source.
  The result is the decoded instruction and the returned width.
\<close>

definition parseInsn :: "DvmGlobals \<Rightarrow> (nat \<Rightarrow> u2) \<Rightarrow> nat \<Rightarrow> DecodedInstruction \<times> int" where
  "parseInsn gDvm code codePtr =
     (let instr = code codePtr;
          opcode = (ucast (instr AND 0xff) :: OpCode);
          insnWidth =
            (if opcode = OP_NOP \<and> instr \<noteq> 0 then
               (let insnWidth1 =
                  (if instr = kPackedSwitchSignature then
                     4 + uint (code (codePtr + 1)) * 2
                   else if instr = kSparseSwitchSignature then
                     2 + uint (code (codePtr + 1)) * 4
                   else if instr = kArrayDataSignature then
                     (let width = uint (code (codePtr + 1));
                          size = sint ((ucast (code (codePtr + 2)) :: u4)
                                   OR push_bit 16 (ucast (code (codePtr + 3)) :: u4))
                      in 4 + sint (word_of_int (size * width + 1) :: u4) sdiv 2)
                   else 0)
                in 0)
             else
               (let insnWidth1 = instrWidth gDvm opcode
                in if insnWidth1 < 0 then - insnWidth1 else insnWidth1))
      in (dexDecodeInstruction gDvm code codePtr, insnWidth))"

text \<open>
  The spec's words on inline data (section 4.1), as a definition of their own to compare
  \<open>parseInsn\<close> with: the width is 4 + entries*2 for a packed-switch payload,
  2 + entries*4 for a sparse-switch payload, and 4 + ceil(size*elemWidth/2) for an
  array-data payload, whose size is the 32-bit value of the third and fourth unit.
\<close>

definition inlineDataWidth_spec :: "(nat \<Rightarrow> u2) \<Rightarrow> nat \<Rightarrow> int" where
  "inlineDataWidth_spec code codePtr =
     (if code codePtr = kPackedSwitchSignature then 4 + uint (code (codePtr + 1)) * 2
      else if code codePtr = kSparseSwitchSignature then 2 + uint (code (codePtr + 1)) * 4
      else (let elemWidth = uint (code (codePtr + 1));
                size = uint (code (codePtr + 2)) + 65536 * uint (code (codePtr + 3))
            in 4 + (size * elemWidth + 1) div 2))"

subsection \<open>findBlockBoundary and isUnconditionalBranch\<close>

text \<open>
  The three out-parameters \<^verbatim>\<open>target\<close>, \<^verbatim>\<open>isInvoke\<close> and \<^verbatim>\<open>callee\<close> come in with the
  caller's values and go out, possibly overwritten, beside the returned flag. The cases
  stand in the order of the \<^verbatim>\<open>switch\<close>.
\<close>

definition findBlockBoundary ::
  "CallerMethod \<Rightarrow> MIR \<Rightarrow> u4 \<Rightarrow> u4 \<times> bool \<times> Method option
     \<Rightarrow> bool \<times> u4 \<times> bool \<times> Method option" where
  "findBlockBoundary caller insn curOffset out =
     (case out of (target, isInvoke, callee) \<Rightarrow>
      let op = opCode (dalvikInsn insn) in
      if op = OP_RETURN_VOID \<or> op = OP_RETURN \<or> op = OP_RETURN_WIDE \<or> op = OP_RETURN_OBJECT
         \<or> op = OP_THROW \<or> op = OP_INVOKE_VIRTUAL \<or> op = OP_INVOKE_VIRTUAL_RANGE
         \<or> op = OP_INVOKE_INTERFACE \<or> op = OP_INVOKE_INTERFACE_RANGE
         \<or> op = OP_INVOKE_VIRTUAL_QUICK \<or> op = OP_INVOKE_VIRTUAL_QUICK_RANGE then
        (True, target, True, callee)
      else if op = OP_INVOKE_SUPER \<or> op = OP_INVOKE_SUPER_RANGE then
        (let mIndex = methodIndex (pResMethods (clazz caller) (unat (vB (dalvikInsn insn))));
             calleeMethod = superVtable (clazz caller) mIndex
         in (True, if \<not> dvmIsNativeMethod calleeMethod then insnsPtr calleeMethod else target,
             True, Some calleeMethod))
      else if op = OP_INVOKE_STATIC \<or> op = OP_INVOKE_STATIC_RANGE then
        (let calleeMethod = pResMethods (clazz caller) (unat (vB (dalvikInsn insn)))
         in (True, if \<not> dvmIsNativeMethod calleeMethod then insnsPtr calleeMethod else target,
             True, Some calleeMethod))
      else if op = OP_INVOKE_SUPER_QUICK \<or> op = OP_INVOKE_SUPER_QUICK_RANGE then
        (let calleeMethod = superVtable (clazz caller) (unat (vB (dalvikInsn insn)))
         in (True, if \<not> dvmIsNativeMethod calleeMethod then insnsPtr calleeMethod else target,
             True, Some calleeMethod))
      else if op = OP_INVOKE_DIRECT \<or> op = OP_INVOKE_DIRECT_RANGE then
        (let calleeMethod = pResMethods (clazz caller) (unat (vB (dalvikInsn insn)))
         in (True, if \<not> dvmIsNativeMethod calleeMethod then insnsPtr calleeMethod else target,
             True, Some calleeMethod))
      else if op = OP_GOTO \<or> op = OP_GOTO_16 \<or> op = OP_GOTO_32 then
        (True, curOffset + vA (dalvikInsn insn), isInvoke, callee)
      else if op = OP_IF_EQ \<or> op = OP_IF_NE \<or> op = OP_IF_LT \<or> op = OP_IF_GE
              \<or> op = OP_IF_GT \<or> op = OP_IF_LE then
        (True, curOffset + vC (dalvikInsn insn), isInvoke, callee)
      else if op = OP_IF_EQZ \<or> op = OP_IF_NEZ \<or> op = OP_IF_LTZ \<or> op = OP_IF_GEZ
              \<or> op = OP_IF_GTZ \<or> op = OP_IF_LEZ then
        (True, curOffset + vB (dalvikInsn insn), isInvoke, callee)
      else (False, target, isInvoke, callee))"

definition isUnconditionalBranch :: "MIR \<Rightarrow> bool" where
  "isUnconditionalBranch insn =
     (let op = opCode (dalvikInsn insn) in
      if op = OP_RETURN_VOID \<or> op = OP_RETURN \<or> op = OP_RETURN_WIDE \<or> op = OP_RETURN_OBJECT
         \<or> op = OP_GOTO \<or> op = OP_GOTO_16 \<or> op = OP_GOTO_32 then True
      else False)"

subsection \<open>Blocks, trace descriptors and the compilation unit\<close>

text \<open>
  Modelled from the spec: \<^verbatim>\<open>BasicBlock\<close>, \<^verbatim>\<open>BBType\<close> and \<^verbatim>\<open>CompilationUnit\<close> are
  declared in \<^verbatim>\<open>CompilerIR.h\<close>, the trace descriptor in \<^verbatim>\<open>interp/Jit.h\<close>, and
  \<^verbatim>\<open>dvmCompilerNewBB\<close> and \<^verbatim>\<open>dvmCompilerAppendMIR\<close> in \<^verbatim>\<open>IntermediateRep.c\<close>; none is
  among the sources. A block has a kind, an identity, a start offset, an ordered
  sequence of code nodes, the two edges \<^verbatim>\<open>taken\<close> and \<^verbatim>\<open>fallThrough\<close>, the
  explicit-branch flag and, for invoke chaining cells, the callee. A new block is zeroed
  but for its kind; appending a node puts it last in the block's sequence.

  The blocks of one compilation are linked through \<^verbatim>\<open>next\<close> in the order
  \<^verbatim>\<open>dvmCompileTrace\<close> creates them (it only ever links a new block behind \<^verbatim>\<open>lastBB\<close>),
  so the chain is a list, \<^verbatim>\<open>lastBB\<close> is its last element, and a pointer to a block
  (\<^verbatim>\<open>taken\<close>, \<^verbatim>\<open>fallThrough\<close>, \<^verbatim>\<open>curBB\<close>) is the block's position in the chain;
  \<open>None\<close> is the null pointer. \<open>mirInsns\<close> is the sequence from \<^verbatim>\<open>firstMIRInsn\<close> to
  \<^verbatim>\<open>lastMIRInsn\<close>; \<open>id'\<close> is the field \<^verbatim>\<open>id\<close> of a block and \<open>method'\<close> the field
  \<^verbatim>\<open>method\<close> of a trace descriptor.
\<close>

datatype BBType =
  CHAINING_CELL_NORMAL | CHAINING_CELL_HOT | CHAINING_CELL_INVOKE
  | DALVIK_BYTECODE | PC_RECONSTRUCTION | EXCEPTION_HANDLING

record BasicBlock =
  id' :: int
  startOffset :: u4
  containingMethod :: "Method option"
  blockType :: BBType
  needFallThroughBranch :: bool
  mirInsns :: "MIR list"
  fallThrough :: "nat option"
  taken :: "nat option"

record JitCodeDesc =
  frag_startOffset :: u4
  frag_numInsts :: u4
  frag_runEnd :: bool

record JitTraceDescription =
  method' :: CallerMethod
  trace :: "nat \<Rightarrow> JitCodeDesc"

record DvmJitGlobals =
  jitPrintMe :: bool
  methodTable :: "string list option"
  includeSelectedMethod :: bool

record CompilationUnit =
  numInsts :: int
  numBlocks :: int
  blockList :: "BasicBlock list"
  printMe :: bool
  allSingleStep :: bool
  halveInstCount :: bool
  baseAddr :: u4
  headerSize :: u4

text \<open>
  Modelled from the spec: \<^verbatim>\<open>dvmCompilerAssembleLIR\<close> and the lowering before it are
  external. What \<^verbatim>\<open>dvmCompileTrace\<close> reads of their work is the too-large flag and
  the address and header size of the emitted code.
\<close>

record AssemblerResult =
  asmHalveInstCount :: bool
  asmBaseAddr :: u4
  asmHeaderSize :: u4

definition dvmCompilerNewBB :: "BBType \<Rightarrow> BasicBlock" where
  "dvmCompilerNewBB t =
     \<lparr>id' = 0, startOffset = 0, containingMethod = None, blockType = t,
      needFallThroughBranch = False, mirInsns = [], fallThrough = None, taken = None\<rparr>"

definition dvmCompilerAppendMIR :: "BasicBlock \<Rightarrow> MIR \<Rightarrow> BasicBlock" where
  "dvmCompilerAppendMIR bb mir = bb\<lparr>mirInsns := mirInsns bb @ [mir]\<rparr>"

text \<open>
  Modelled from the spec: \<^verbatim>\<open>gDvmJit.methodTable\<close> is a hash table of names kept
  outside this file. A lookup with \<^verbatim>\<open>strcmp\<close> as the comparison and no insertion
  finds an entry exactly when the key is one of the stored names.
\<close>

definition dvmHashTableLookup :: "string list \<Rightarrow> string \<Rightarrow> bool" where
  "dvmHashTableLookup table key = (key \<in> set table)"

text \<open>
  What ends a compilation without a result: the read of a field through a null pointer,
  the failed assertion of line 439, and the two calls of \<^verbatim>\<open>dvmAbort\<close> in
  \<^verbatim>\<open>dvmCompileMethod\<close> with the numbers their log lines print.
\<close>

datatype fault =
  NullPointer | AssertionFailed | AbortBlockCount int int | AbortTargetNotFound u4 u4

subsection \<open>dvmCompileTrace\<close>

text \<open>The three-level screening of the trace's method (lines 204 to 265).\<close>

definition traceFilter :: "DvmJitGlobals \<Rightarrow> JitTraceDescription \<Rightarrow> CompilationUnit \<Rightarrow> CompilationUnit" where
  "traceFilter gDvmJit desc cUnit =
     (case methodTable gDvmJit of
        None \<Rightarrow> cUnit
      | Some table \<Rightarrow>
          (let fullSignature = descriptor (clazz (method' desc)) @ name (method' desc);
               methodFound1 = dvmHashTableLookup table fullSignature;
               methodFound =
                 (if methodFound1 = False then
                    (let methodFound2 = dvmHashTableLookup table (descriptor (clazz (method' desc)))
                     in if methodFound2 = False
                        then dvmHashTableLookup table (name (method' desc))
                        else methodFound2)
                  else methodFound1)
           in if includeSelectedMethod gDvmJit \<noteq> methodFound then cUnit\<lparr>allSingleStep := True\<rparr>
              else if includeSelectedMethod gDvmJit = True then cUnit\<lparr>printMe := True\<rparr>
              else cUnit))"

text \<open>
  The \<^verbatim>\<open>while (1)\<close> loop that decodes the trace (lines 281 to 313). The state holds
  the locals the loop changes; \<^verbatim>\<open>curBB\<close> is the last block of the chain throughout.
  \<open>numInstsLeft\<close> is the local \<^verbatim>\<open>numInsts\<close> (unsigned, so the decrement wraps),
  \<open>cuNumInsts\<close> is \<^verbatim>\<open>cUnit.numInsts\<close>, \<open>numBlocksT\<close> the local \<^verbatim>\<open>numBlocks\<close>.
\<close>

record TraceScan =
  chain :: "BasicBlock list"
  numBlocksT :: int
  curOffset :: u4
  codePtr :: nat
  numInstsLeft :: u4
  currRun :: nat
  traceSize :: int
  cuNumInsts :: int

function scanTrace :: "DvmGlobals \<Rightarrow> JitTraceDescription \<Rightarrow> int \<Rightarrow> TraceScan \<Rightarrow> TraceScan" where
  "scanTrace gDvm desc numMaxInsts s =
     (let dexInsns = insns (dexCode (method' desc));
          curBB = length (chain s) - 1;
          parsed = parseInsn gDvm dexInsns (codePtr s);
          insn = \<lparr>dalvikInsn = fst parsed, width = snd parsed, offset = curOffset s\<rparr>;
          s1 = s\<lparr>traceSize := traceSize s + snd parsed,
                 chain := (chain s)[curBB := dvmCompilerAppendMIR (chain s ! curBB) insn],
                 cuNumInsts := cuNumInsts s + 1\<rparr>
      in if cuNumInsts s1 \<ge> numMaxInsts then s1
         else if numInstsLeft s1 - 1 = 0 then
           (if frag_runEnd (trace desc (currRun s1)) then s1\<lparr>numInstsLeft := 0\<rparr>
            else
              (let nextRun = trace desc (currRun s1 + 1);
                   newBB = (dvmCompilerNewBB DALVIK_BYTECODE)
                             \<lparr>id' := numBlocksT s1, startOffset := frag_startOffset nextRun\<rparr>
               in scanTrace gDvm desc numMaxInsts
                    (s1\<lparr>chain := chain s1 @ [newBB],
                        numBlocksT := numBlocksT s1 + 1,
                        currRun := currRun s1 + 1,
                        curOffset := frag_startOffset nextRun,
                        numInstsLeft := frag_numInsts nextRun,
                        codePtr := unat (frag_startOffset nextRun)\<rparr>)))
         else scanTrace gDvm desc numMaxInsts
                (s1\<lparr>numInstsLeft := numInstsLeft s1 - 1,
                    curOffset := curOffset s1 + word_of_int (snd parsed),
                    codePtr := codePtr s1 + nat (snd parsed)\<rparr>))"
  by pat_completeness auto
termination
  by (relation "measure (\<lambda>(gDvm, desc, numMaxInsts, s). nat (numMaxInsts - cuNumInsts s))") auto

text \<open>
  The inner search loop (lines 339 to 346): every block after \<^verbatim>\<open>curBB\<close> is compared
  with both offsets, a later match overwriting an earlier one.
\<close>

primrec searchBlocks ::
  "u4 \<Rightarrow> u4 \<Rightarrow> nat \<Rightarrow> BasicBlock list \<Rightarrow> nat option \<times> nat option \<Rightarrow> nat option \<times> nat option" where
  "searchBlocks targetOffset fallThroughOffset searchBB [] edges = edges"
| "searchBlocks targetOffset fallThroughOffset searchBB (b # bs) edges =
     searchBlocks targetOffset fallThroughOffset (Suc searchBB) bs
       (if targetOffset = startOffset b then Some searchBB else fst edges,
        if fallThroughOffset = startOffset b then Some searchBB else snd edges)"

text \<open>
  Linking a new block behind \<^verbatim>\<open>lastBB\<close> and numbering it, as the source does for every
  block but the first: \<^verbatim>\<open>lastBB->next = bb; lastBB = lastBB->next; lastBB->id = numBlocks++\<close>.
  The state is the chain and \<^verbatim>\<open>numBlocks\<close>.
\<close>

definition appendBB :: "BasicBlock \<Rightarrow> BasicBlock list \<times> int \<Rightarrow> BasicBlock list \<times> int" where
  "appendBB bb st = (fst st @ [bb\<lparr>id' := snd st\<rparr>], snd st + 1)"

text \<open>
  One iteration of the edge loop for the block \<^verbatim>\<open>curBB\<close>, in three parts. First the
  forward search and the explicit-branch flag (lines 336 to 359).
\<close>

definition resolveEdges :: "u4 \<Rightarrow> u4 \<Rightarrow> u4 \<Rightarrow> nat \<Rightarrow> BasicBlock list \<Rightarrow> BasicBlock list" where
  "resolveEdges targetOffset fallThroughOffset flags curBB chain0 =
     (let edges = searchBlocks targetOffset fallThroughOffset (Suc curBB) (drop (Suc curBB) chain0)
                    (taken (chain0 ! curBB), fallThrough (chain0 ! curBB))
      in chain0[curBB := (chain0 ! curBB)
                  \<lparr>taken := fst edges, fallThrough := snd edges,
                   needFallThroughBranch :=
                     (flags AND (kInstrCanBranch OR kInstrCanSwitch OR kInstrCanReturn
                                 OR kInstrInvoke) = 0)\<rparr>])"

text \<open>The chaining cell for a target that is not in the trace (lines 361 to 380).\<close>

definition takenCell ::
  "u4 \<Rightarrow> u4 \<Rightarrow> bool \<Rightarrow> Method option \<Rightarrow> u4 \<Rightarrow> nat \<Rightarrow> BasicBlock list \<times> int
     \<Rightarrow> BasicBlock list \<times> int" where
  "takenCell targetOffset curOffset0 isInvoke callee flags curBB st =
     (if targetOffset \<noteq> curOffset0 \<and> taken (fst st ! curBB) = None then
        (let bb = dvmCompilerNewBB
                    (if isInvoke then CHAINING_CELL_INVOKE
                     else if flags AND kInstrUnconditional \<noteq> 0 then CHAINING_CELL_HOT
                     else CHAINING_CELL_NORMAL);
             bb' = (if isInvoke then bb\<lparr>startOffset := 0, containingMethod := callee\<rparr>
                    else bb\<lparr>startOffset := targetOffset\<rparr>);
             st1 = appendBB bb' st;
             lastBB = length (fst st1) - 1
         in ((fst st1)[curBB := (fst st1 ! curBB)\<lparr>taken := Some lastBB\<rparr>], snd st1))
      else st)"

text \<open>The chaining cell for a fall-through that is not in the trace (lines 382 to 398).\<close>

definition fallThroughCell ::
  "MIR \<Rightarrow> u4 \<Rightarrow> bool \<Rightarrow> nat \<Rightarrow> BasicBlock list \<times> int \<Rightarrow> BasicBlock list \<times> int" where
  "fallThroughCell lastInsn fallThroughOffset isInvoke curBB st =
     (if \<not> isUnconditionalBranch lastInsn \<and> fallThrough (fst st ! curBB) = None then
        (let bb = dvmCompilerNewBB
                    (if isInvoke \<or> needFallThroughBranch (fst st ! curBB) then CHAINING_CELL_HOT
                     else CHAINING_CELL_NORMAL);
             st1 = appendBB (bb\<lparr>startOffset := fallThroughOffset\<rparr>) st;
             lastBB = length (fst st1) - 1
         in ((fst st1)[curBB := (fst st1 ! curBB)\<lparr>fallThrough := Some lastBB\<rparr>], snd st1))
      else st)"

text \<open>
  The iteration (lines 321 to 398): the last instruction of the block is classified
  with \<^verbatim>\<open>targetOffset\<close> preset to the instruction's own offset, \<^verbatim>\<open>isInvoke\<close> to false
  and \<^verbatim>\<open>callee\<close> to null; then the three parts above.
\<close>

definition linkBlock ::
  "DvmGlobals \<Rightarrow> CallerMethod \<Rightarrow> nat \<Rightarrow> BasicBlock list \<times> int \<Rightarrow> BasicBlock list \<times> int" where
  "linkBlock gDvm caller curBB st =
     (let lastInsn = last (mirInsns (fst st ! curBB));
          curOffset0 = offset lastInsn;
          fallThroughOffset = curOffset0 + word_of_int (width lastInsn);
          boundary = findBlockBoundary caller lastInsn curOffset0 (curOffset0, False, None);
          targetOffset = fst (snd boundary);
          isInvoke = fst (snd (snd boundary));
          callee = snd (snd (snd boundary));
          flags = instrFlags gDvm (opCode (dalvikInsn lastInsn));
          st1 = (resolveEdges targetOffset fallThroughOffset flags curBB (fst st), snd st);
          st2 = takenCell targetOffset curOffset0 isInvoke callee flags curBB st1
      in fallThroughCell lastInsn fallThroughOffset isInvoke curBB st2)"

text \<open>
  The edge loop itself (line 320): it follows the chain from \<^verbatim>\<open>startBB\<close> and stops at
  the end of the chain or at the first block without instructions. It ends because an
  iteration appends blocks without instructions only and leaves the instructions of the
  others alone.
\<close>

function linkBlocks ::
  "DvmGlobals \<Rightarrow> CallerMethod \<Rightarrow> nat \<Rightarrow> BasicBlock list \<times> int \<Rightarrow> BasicBlock list \<times> int" where
  "linkBlocks gDvm caller curBB st =
     (if curBB < length (fst st) then
        (if mirInsns (fst st ! curBB) = [] then st
         else linkBlocks gDvm caller (Suc curBB) (linkBlock gDvm caller curBB st))
      else st)"
  by pat_completeness auto
termination
proof (relation "measure (\<lambda>(gDvm, caller, curBB, st).
          length (filter (\<lambda>m. m \<noteq> []) (drop curBB (map mirInsns (fst st)))))", goal_cases)
  case 1
  show ?case by simp
next
  case (2 gDvm caller curBB st)
  obtain ch n where st: "st = (ch, n)" by (cases st)
  from 2 have lt: "curBB < length ch" and ne: "mirInsns (ch ! curBB) \<noteq> []"
    by (simp_all add: st)
  have "\<exists>cells. map mirInsns (fst (linkBlock gDvm caller curBB (ch, n))) = map mirInsns ch @ cells
      \<and> (\<forall>c \<in> set cells. c = [])"
    using lt
    by (auto simp: linkBlock_def resolveEdges_def takenCell_def fallThroughCell_def appendBB_def
        Let_def dvmCompilerNewBB_def map_update list_update_append
        intro!: nth_equalityI simp: nth_list_update nth_append)
  then obtain cells
    where m: "map mirInsns (fst (linkBlock gDvm caller curBB (ch, n))) = map mirInsns ch @ cells"
      and e: "\<forall>c \<in> set cells. c = []"
    by blast
  have d: "drop curBB (map mirInsns ch) = mirInsns (ch ! curBB) # drop (Suc curBB) (map mirInsns ch)"
    using lt by (simp add: Cons_nth_drop_Suc [symmetric])
  have f: "filter (\<lambda>m. m \<noteq> []) cells = []"
    using e by (simp add: filter_empty_conv)
  show ?case
    using lt ne by (simp add: st m d f)
qed

text \<open>
  The loop that fills \<^verbatim>\<open>blockList\<close> (lines 434 to 437) walks the chain for
  \<^verbatim>\<open>numBlocks\<close> steps and returns the array and the rest of the chain; stepping
  past the end of the chain reads \<^verbatim>\<open>next\<close> of a null pointer.
\<close>

fun fillBlockList :: "nat \<Rightarrow> BasicBlock list \<Rightarrow> fault + BasicBlock list \<times> BasicBlock list" where
  "fillBlockList 0 curBB = Inr ([], curBB)"
| "fillBlockList (Suc n) [] = Inl NullPointer"
| "fillBlockList (Suc n) (b # bs) =
     (case fillBlockList n bs of
        Inl f \<Rightarrow> Inl f
      | Inr (blocks, curBB) \<Rightarrow> Inr (b # blocks, curBB))"

text \<open>
  The locals at the entry of the loop (lines 188 to 196 and 267 to 270): the first block,
  numbered 0, starts at the offset of the first run.
\<close>

definition scanStart :: "JitTraceDescription \<Rightarrow> TraceScan" where
  "scanStart desc =
     \<lparr>chain = [(dvmCompilerNewBB DALVIK_BYTECODE)
                  \<lparr>startOffset := frag_startOffset (trace desc 0), id' := 0\<rparr>],
      numBlocksT = 1, curOffset = frag_startOffset (trace desc 0),
      codePtr = unat (frag_startOffset (trace desc 0)),
      numInstsLeft = frag_numInsts (trace desc 0),
      currRun = 0, traceSize = 0, cuNumInsts = 0\<rparr>"

text \<open>
  One attempt, from the entry of \<^verbatim>\<open>dvmCompileTrace\<close> to the hand-over of the
  compilation unit to the lowering (lines 186 to 443), with the assertion of line 439.
\<close>

definition traceAttempt ::
  "DvmGlobals \<Rightarrow> DvmJitGlobals \<Rightarrow> JitTraceDescription \<Rightarrow> int \<Rightarrow> fault + CompilationUnit" where
  "traceAttempt gDvm gDvmJit desc numMaxInsts =
     (let cUnit0 = \<lparr>numInsts = 0, numBlocks = 0, blockList = [], printMe = jitPrintMe gDvmJit,
                    allSingleStep = False, halveInstCount = False, baseAddr = 0, headerSize = 0\<rparr>;
          cUnit1 = traceFilter gDvmJit desc cUnit0;
          scanned = scanTrace gDvm desc numMaxInsts (scanStart desc);
          linked = linkBlocks gDvm (method' desc) 0 (chain scanned, numBlocksT scanned);
          withPC = appendBB (dvmCompilerNewBB PC_RECONSTRUCTION) linked;
          withEH = appendBB (dvmCompilerNewBB EXCEPTION_HANDLING) withPC;
          chain2 = fst withEH;
          numBlocks3 = snd withEH
      in case fillBlockList (nat numBlocks3) chain2 of
           Inl f \<Rightarrow> Inl f
         | Inr (blocks, curBB) \<Rightarrow>
             if curBB \<noteq> [] then Inl AssertionFailed
             else Inr (cUnit1\<lparr>numInsts := cuNumInsts scanned, numBlocks := numBlocks3,
                                blockList := blocks\<rparr>))"

text \<open>
  \<^verbatim>\<open>dvmCompileTrace\<close>: an attempt, the lowering, and either the entry point of the
  translation or the call of itself with half the instructions of the attempt
  (lines 445 to 475). The function may call itself without end; \<open>None\<close> is then its
  value.
\<close>

partial_function (option) dvmCompileTrace ::
  "DvmGlobals \<Rightarrow> DvmJitGlobals \<Rightarrow> (CompilationUnit \<Rightarrow> AssemblerResult)
     \<Rightarrow> JitTraceDescription \<Rightarrow> int \<Rightarrow> (fault + u4) option" where
  "dvmCompileTrace gDvm gDvmJit assemble desc numMaxInsts =
     (case traceAttempt gDvm gDvmJit desc numMaxInsts of
        Inl f \<Rightarrow> Some (Inl f)
      | Inr built \<Rightarrow>
          (let cUnit = built\<lparr>halveInstCount := asmHalveInstCount (assemble built),
                             baseAddr := asmBaseAddr (assemble built),
                             headerSize := asmHeaderSize (assemble built)\<rparr>
           in if \<not> halveInstCount cUnit then Some (Inr (baseAddr cUnit + headerSize cUnit))
              else dvmCompileTrace gDvm gDvmJit assemble desc (numInsts cUnit sdiv 2)))"

subsection \<open>dvmCompileMethod\<close>

text \<open>
  Modelled from the spec: the bit vector (\<^verbatim>\<open>BitVector.c\<close>) is not among the sources. It
  is a bit set of the size it is allocated with, here the code length plus one; it does
  not grow, so setting a bit beyond its size leaves it as it is.
\<close>

definition dvmAllocBitVector :: "nat \<Rightarrow> bool list" where
  "dvmAllocBitVector startBits = replicate startBits False"

definition dvmSetBit :: "bool list \<Rightarrow> nat \<Rightarrow> bool list" where
  "dvmSetBit pBits num = (if num < length pBits then pBits[num := True] else pBits)"

definition dvmIsBitSet :: "bool list \<Rightarrow> nat \<Rightarrow> bool" where
  "dvmIsBitSet pBits num = (num < length pBits \<and> pBits ! num)"

definition dvmCountSetBits :: "bool list \<Rightarrow> int" where
  "dvmCountSetBits pBits = int (length (filter (\<lambda>b. b) pBits))"

text \<open>
  The first loop (lines 504 to 535) puts every instruction into the first block and
  marks the block starts. The state holds the instructions of \<^verbatim>\<open>firstBlock\<close>, the bit
  vector, \<^verbatim>\<open>codePtr\<close> (as an index into the code) and \<^verbatim>\<open>curOffset\<close>. An instruction
  of width 0 keeps the loop at the same place for ever; \<open>None\<close> is then its value.
  \<open>scanMethodStep\<close> is the body of the loop.
\<close>

record MethodScan =
  firstBlockInsns :: "MIR list"
  bbStartAddr :: "bool list"
  codePtrM :: nat
  curOffsetM :: u4

definition scanMethodStep :: "DvmGlobals \<Rightarrow> CallerMethod \<Rightarrow> MethodScan \<Rightarrow> MethodScan" where
  "scanMethodStep gDvm meth s =
     (let parsed = parseInsn gDvm (insns (dexCode meth)) (codePtrM s);
          insn = \<lparr>dalvikInsn = fst parsed, width = snd parsed, offset = curOffsetM s\<rparr>;
          boundary = findBlockBoundary meth insn (curOffsetM s) (curOffsetM s, False, None);
          target = fst (snd boundary);
          bits =
            (if fst boundary then
               (let bits1 = dvmSetBit (bbStartAddr s)
                              (unat (curOffsetM s + word_of_int (snd parsed)))
                in if target \<noteq> curOffsetM s then dvmSetBit bits1 (unat target) else bits1)
             else bbStartAddr s)
      in s\<lparr>firstBlockInsns := firstBlockInsns s @ [insn],
           bbStartAddr := bits,
           codePtrM := codePtrM s + nat (snd parsed),
           curOffsetM := curOffsetM s + word_of_int (snd parsed)\<rparr>)"

partial_function (option) scanMethod ::
  "DvmGlobals \<Rightarrow> CallerMethod \<Rightarrow> MethodScan \<Rightarrow> MethodScan option" where
  "scanMethod gDvm meth s =
     (if codePtrM s < insnsSize (dexCode meth)
      then scanMethod gDvm meth (scanMethodStep gDvm meth s)
      else Some s)"

declare scanMethod.simps [code]

text \<open>The state at the entry of the first loop (lines 487 to 498).\<close>

definition methodStart :: "CallerMethod \<Rightarrow> MethodScan" where
  "methodStart meth =
     \<lparr>firstBlockInsns = [],
      bbStartAddr = dvmSetBit (dvmAllocBitVector (insnsSize (dexCode meth) + 1)) 0,
      codePtrM = 0, curOffsetM = 0\<rparr>"

text \<open>The expected number of blocks (lines 542 to 545).\<close>

definition expectedBlocks :: "CallerMethod \<Rightarrow> bool list \<Rightarrow> int" where
  "expectedBlocks meth bits =
     (let numBlocks0 = dvmCountSetBits bits
      in if dvmIsBitSet bits (insnsSize (dexCode meth)) then numBlocks0 - 1 else numBlocks0)"

text \<open>
  The splitting loop (lines 559 to 601). \<^verbatim>\<open>blockList\<close> is the zeroed array the arena
  hands out, a function from the index to the slot (\<open>None\<close> is a null slot; C checks
  no bound); a slot holds the block, and a pointer to a block is the index of its slot.
  \<open>cuNumBlocks\<close> is \<^verbatim>\<open>cUnit.numBlocks\<close>. \<open>findStart\<close> is the loop over \<^verbatim>\<open>j\<close> (lines
  572 to 575), \<open>findSplit\<close> the loop over the instructions after the first (lines 568 to
  600) up to its \<^verbatim>\<open>break\<close>, giving the position of the instruction to split at, and
  \<open>splitBlock\<close> one iteration of the loop over \<^verbatim>\<open>i\<close>.
\<close>

record SplitState =
  blockListM :: "nat \<Rightarrow> BasicBlock option"
  cuNumBlocks :: int
  blockID :: int

fun findStart :: "(nat \<Rightarrow> BasicBlock option) \<Rightarrow> u4 \<Rightarrow> nat \<Rightarrow> nat \<Rightarrow> fault + nat" where
  "findStart bl off 0 j = Inr j"
| "findStart bl off (Suc r) j =
     (case bl j of
        None \<Rightarrow> Inl NullPointer
      | Some b \<Rightarrow>
          (case mirInsns b of
             [] \<Rightarrow> Inl NullPointer
           | m # _ \<Rightarrow> if offset m = off then Inr j else findStart bl off r (Suc j)))"

fun findSplit ::
  "bool list \<Rightarrow> (nat \<Rightarrow> BasicBlock option) \<Rightarrow> int \<Rightarrow> nat \<Rightarrow> MIR list \<Rightarrow> fault + nat option" where
  "findSplit bits bl cuNum k [] = Inr None"
| "findSplit bits bl cuNum k (insn # rest) =
     (if dvmIsBitSet bits (unat (offset insn)) then
        (case findStart bl (offset insn) (nat cuNum) 0 of
           Inl f \<Rightarrow> Inl f
         | Inr j \<Rightarrow>
             if j = nat cuNum then Inr (Some k)
             else findSplit bits bl cuNum (Suc k) rest)
      else findSplit bits bl cuNum (Suc k) rest)"

definition splitBlock :: "bool list \<Rightarrow> nat \<Rightarrow> SplitState \<Rightarrow> fault + SplitState" where
  "splitBlock bits i st =
     (case blockListM st i of
        None \<Rightarrow> Inl NullPointer
      | Some curBB \<Rightarrow>
          (case mirInsns curBB of
             [] \<Rightarrow> Inl NullPointer
           | first # rest \<Rightarrow>
               (case findSplit bits (blockListM st) (cuNumBlocks st) 1 rest of
                  Inl f \<Rightarrow> Inl f
                | Inr None \<Rightarrow> Inr st
                | Inr (Some k) \<Rightarrow>
                    (let newBB = (dvmCompilerNewBB DALVIK_BYTECODE)
                                   \<lparr>id' := blockID st, mirInsns := drop k (mirInsns curBB)\<rparr>;
                         curBB1 = curBB\<lparr>mirInsns := take k (mirInsns curBB)\<rparr>;
                         curBB2 = (if \<not> isUnconditionalBranch (last (mirInsns curBB1))
                                   then curBB1\<lparr>fallThrough := Some (nat (cuNumBlocks st))\<rparr>
                                   else curBB1)
                     in Inr (st\<lparr>blockListM := (blockListM st)
                                    (i := Some curBB2, nat (cuNumBlocks st) := Some newBB),
                                cuNumBlocks := cuNumBlocks st + 1,
                                blockID := blockID st + 1\<rparr>)))))"

fun splitLoop :: "bool list \<Rightarrow> nat \<Rightarrow> nat \<Rightarrow> SplitState \<Rightarrow> fault + SplitState" where
  "splitLoop bits 0 i st = Inr st"
| "splitLoop bits (Suc r) i st =
     (case splitBlock bits i st of
        Inl f \<Rightarrow> Inl f
      | Inr st' \<Rightarrow> splitLoop bits r (Suc i) st')"

text \<open>
  The loop that connects the blocks through their taken edges (lines 611 to 643);
  \<open>findTarget\<close> is its inner loop from \<^verbatim>\<open>j\<close> on.
\<close>

fun findTarget :: "(nat \<Rightarrow> BasicBlock option) \<Rightarrow> u4 \<Rightarrow> nat \<Rightarrow> nat \<Rightarrow> fault + nat option" where
  "findTarget bl target 0 j = Inr None"
| "findTarget bl target (Suc r) j =
     (case bl j of
        None \<Rightarrow> Inl NullPointer
      | Some b \<Rightarrow>
          (case mirInsns b of
             [] \<Rightarrow> Inl NullPointer
           | m # _ \<Rightarrow> if offset m = target then Inr (Some j) else findTarget bl target r (Suc j)))"

definition linkTaken ::
  "CallerMethod \<Rightarrow> nat \<Rightarrow> nat \<Rightarrow> (nat \<Rightarrow> BasicBlock option)
     \<Rightarrow> fault + (nat \<Rightarrow> BasicBlock option)" where
  "linkTaken meth numBlocks0 i bl =
     (case bl i of
        None \<Rightarrow> Inl NullPointer
      | Some curBB \<Rightarrow>
          (case mirInsns curBB of
             [] \<Rightarrow> Inl NullPointer
           | first # rest \<Rightarrow>
               (let insn = last (mirInsns curBB);
                    boundary = findBlockBoundary meth insn (offset insn) (offset insn, False, None);
                    target = fst (snd boundary)
                in if target \<noteq> offset insn then
                     (let j0 = (if target > offset insn then i + 1 else 0)
                      in case findTarget bl target (numBlocks0 - j0) j0 of
                           Inl f \<Rightarrow> Inl f
                         | Inr None \<Rightarrow> Inl (AbortTargetNotFound (offset insn) target)
                         | Inr (Some j) \<Rightarrow> Inr (bl(i := Some (curBB\<lparr>taken := Some j\<rparr>))))
                   else Inr bl)))"

fun linkLoop ::
  "CallerMethod \<Rightarrow> nat \<Rightarrow> nat \<Rightarrow> nat \<Rightarrow> (nat \<Rightarrow> BasicBlock option)
     \<Rightarrow> fault + (nat \<Rightarrow> BasicBlock option)" where
  "linkLoop meth numBlocks0 0 i bl = Inr bl"
| "linkLoop meth numBlocks0 (Suc r) i bl =
     (case linkTaken meth numBlocks0 i bl of
        Inl f \<Rightarrow> Inl f
      | Inr bl' \<Rightarrow> linkLoop meth numBlocks0 r (Suc i) bl')"

text \<open>
  \<^verbatim>\<open>dvmCompileMethod\<close> up to the hand-over of the compilation unit to the lowering
  (lines 485 to 643).
\<close>

definition splitStart :: "MethodScan \<Rightarrow> SplitState" where
  "splitStart s =
     \<lparr>blockListM = (\<lambda>_. None)
        (0 := Some ((dvmCompilerNewBB DALVIK_BYTECODE)\<lparr>id' := 0, mirInsns := firstBlockInsns s\<rparr>)),
      cuNumBlocks = 1, blockID = 1\<rparr>"

definition dvmCompileMethod :: "DvmGlobals \<Rightarrow> CallerMethod \<Rightarrow> (fault + CompilationUnit) option" where
  "dvmCompileMethod gDvm meth =
     (case scanMethod gDvm meth (methodStart meth) of
        None \<Rightarrow> None
      | Some s \<Rightarrow>
          Some
            (let numBlocks0 = expectedBlocks meth (bbStartAddr s)
             in case splitLoop (bbStartAddr s) (nat numBlocks0) 0 (splitStart s) of
                  Inl f \<Rightarrow> Inl f
                | Inr st \<Rightarrow>
                    if numBlocks0 \<noteq> cuNumBlocks st
                    then Inl (AbortBlockCount numBlocks0 (cuNumBlocks st))
                    else
                      (case linkLoop meth (nat numBlocks0) (nat numBlocks0) 0 (blockListM st) of
                         Inl f \<Rightarrow> Inl f
                       | Inr bl \<Rightarrow>
                           Inr \<lparr>numInsts = 0, numBlocks = cuNumBlocks st,
                                blockList = List.map_filter bl [0..<nat numBlocks0],
                                printMe = False, allSingleStep = False, halveInstCount = False,
                                baseAddr = 0, headerSize = 0\<rparr>)))"

subsection \<open>Predicates used in the proofs\<close>

text \<open>
  \<open>scanInv\<close> holds of the decoding loop's state at the head of every iteration and
  \<open>scanDone\<close> at its exit: the blocks are numbered by position, are bytecode blocks
  without edges, and all but the one being filled (at the exit: all) hold an
  instruction. \<open>chainOK nb\<close> describes the chain during the edge loop: \<open>nb\<close> bytecode
  blocks with instructions, then chaining cells without. \<open>chainExt i\<close> relates the
  chain before and after work on block \<open>i\<close>. \<open>takenOK\<close> and \<open>fallThroughOK\<close> say
  that the edges of block \<open>i\<close> are resolved; \<open>targetOf\<close> is the target offset the
  classifier leaves for a last instruction.

  \<open>inChainAt ch i j\<close> says of a chain \<open>ch\<close> which the edge loop has worked on that
  block \<open>j\<close> was behind block \<open>i\<close> when the loop reached block \<open>i\<close>, so that the
  forward search for block \<open>i\<close> saw it: \<open>j\<close> is a later bytecode block, or a later
  block that the taken or fall-through edge of a block before \<open>i\<close> points to. (The
  bytecode blocks are all there before the edge loop starts; a chaining cell is made
  during the work on a block, which then points to it, and the work on a block changes
  the edges of that block only.) \<open>edgesInv nb i\<close> is the invariant behind this reading:
  the edges of the blocks before \<open>i\<close> point into the chain, and every chaining cell of
  the chain is pointed to by one of them. \<open>takenExact\<close> describes the taken edge of a
  block: the last of those blocks that starts at the target offset, else a block which
  is not one of them if the target offset differs from the offset of the last
  instruction, else none.
  \<open>linkedUpTo\<close> is the state after the first \<open>i\<close> iterations of the edge loop and
  \<open>chainAt\<close> the chain of an attempt at that moment, which is the moment the loop
  reaches block \<open>i\<close>.
\<close>

definition isChainingCell :: "BBType \<Rightarrow> bool" where
  "isChainingCell t = (t = CHAINING_CELL_NORMAL \<or> t = CHAINING_CELL_HOT \<or> t = CHAINING_CELL_INVOKE)"

definition scanInv :: "TraceScan \<Rightarrow> bool" where
  "scanInv s =
     (chain s \<noteq> [] \<and> numBlocksT s = int (length (chain s))
      \<and> (\<forall>k < length (chain s).
            id' (chain s ! k) = int k \<and> blockType (chain s ! k) = DALVIK_BYTECODE
            \<and> taken (chain s ! k) = None \<and> fallThrough (chain s ! k) = None
            \<and> (Suc k < length (chain s) \<longrightarrow> mirInsns (chain s ! k) \<noteq> [])))"

definition scanDone :: "TraceScan \<Rightarrow> bool" where
  "scanDone s = (scanInv s \<and> (\<forall>k < length (chain s). mirInsns (chain s ! k) \<noteq> []))"

definition chainOK :: "nat \<Rightarrow> BasicBlock list \<Rightarrow> int \<Rightarrow> bool" where
  "chainOK nb ch n =
     (nb \<le> length ch \<and> n = int (length ch)
      \<and> (\<forall>k < length ch.
            id' (ch ! k) = int k
            \<and> (if k < nb then blockType (ch ! k) = DALVIK_BYTECODE \<and> mirInsns (ch ! k) \<noteq> []
                else isChainingCell (blockType (ch ! k)) \<and> mirInsns (ch ! k) = [])))"

definition chainExt :: "nat \<Rightarrow> BasicBlock list \<Rightarrow> BasicBlock list \<Rightarrow> bool" where
  "chainExt i ch ch' =
     (length ch \<le> length ch'
      \<and> (\<forall>k < length ch.
            (k \<noteq> i \<longrightarrow> ch' ! k = ch ! k)
            \<and> startOffset (ch' ! k) = startOffset (ch ! k)
            \<and> blockType (ch' ! k) = blockType (ch ! k)
            \<and> mirInsns (ch' ! k) = mirInsns (ch ! k)
            \<and> id' (ch' ! k) = id' (ch ! k))
      \<and> (\<forall>k. length ch \<le> k \<and> k < length ch' \<longrightarrow>
            isChainingCell (blockType (ch' ! k)) \<and> mirInsns (ch' ! k) = []
            \<and> id' (ch' ! k) = int k))"

definition targetOf :: "CallerMethod \<Rightarrow> MIR \<Rightarrow> u4" where
  "targetOf caller insn =
     fst (snd (findBlockBoundary caller insn (offset insn) (offset insn, False, None)))"

definition takenOK :: "CallerMethod \<Rightarrow> BasicBlock list \<Rightarrow> nat \<Rightarrow> bool" where
  "takenOK caller ch i =
     (let lastInsn = last (mirInsns (ch ! i)) in
      targetOf caller lastInsn \<noteq> offset lastInsn \<longrightarrow>
      (\<exists>j. taken (ch ! i) = Some j \<and> i < j \<and> j < length ch
           \<and> (blockType (ch ! j) = DALVIK_BYTECODE \<or> isChainingCell (blockType (ch ! j)))
           \<and> (startOffset (ch ! j) = targetOf caller lastInsn
                \<or> blockType (ch ! j) = CHAINING_CELL_INVOKE \<and> startOffset (ch ! j) = 0)))"

definition fallThroughOK :: "BasicBlock list \<Rightarrow> nat \<Rightarrow> bool" where
  "fallThroughOK ch i =
     (let lastInsn = last (mirInsns (ch ! i)) in
      \<not> isUnconditionalBranch lastInsn \<longrightarrow>
      (\<exists>j. fallThrough (ch ! i) = Some j \<and> i < j \<and> j < length ch
           \<and> (blockType (ch ! j) = DALVIK_BYTECODE \<or> isChainingCell (blockType (ch ! j)))
           \<and> startOffset (ch ! j) = offset lastInsn + word_of_int (width lastInsn)))"

definition inChainAt :: "BasicBlock list \<Rightarrow> nat \<Rightarrow> nat \<Rightarrow> bool" where
  "inChainAt ch i j =
     (i < j \<and> j < length ch
      \<and> (blockType (ch ! j) = DALVIK_BYTECODE
         \<or> (\<exists>k < i. taken (ch ! k) = Some j \<or> fallThrough (ch ! k) = Some j)))"

definition takenExact :: "CallerMethod \<Rightarrow> BasicBlock list \<Rightarrow> nat \<Rightarrow> bool" where
  "takenExact caller ch i =
     (let lastInsn = last (mirInsns (ch ! i));
          t = targetOf caller lastInsn
      in if \<exists>j. inChainAt ch i j \<and> startOffset (ch ! j) = t
         then \<exists>j. taken (ch ! i) = Some j \<and> (inChainAt ch i j \<and> startOffset (ch ! j) = t)
                \<and> (\<forall>j'. inChainAt ch i j' \<and> startOffset (ch ! j') = t \<longrightarrow> j' \<le> j)
         else if t = offset lastInsn then taken (ch ! i) = None
         else \<exists>j. taken (ch ! i) = Some j \<and> i < j \<and> j < length ch \<and> \<not> inChainAt ch i j)"

definition edgesInv :: "nat \<Rightarrow> nat \<Rightarrow> BasicBlock list \<Rightarrow> bool" where
  "edgesInv nb i ch =
     ((\<forall>k < i. \<forall>j. taken (ch ! k) = Some j \<or> fallThrough (ch ! k) = Some j \<longrightarrow> j < length ch)
      \<and> (\<forall>j. nb \<le> j \<and> j < length ch \<longrightarrow>
             (\<exists>k < i. taken (ch ! k) = Some j \<or> fallThrough (ch ! k) = Some j)))"

definition linkedUpTo ::
  "DvmGlobals \<Rightarrow> CallerMethod \<Rightarrow> nat \<Rightarrow> BasicBlock list \<times> int \<Rightarrow> BasicBlock list \<times> int" where
  "linkedUpTo gDvm caller i st = fold (linkBlock gDvm caller) [0..<i] st"

definition linkedChain :: "DvmGlobals \<Rightarrow> JitTraceDescription \<Rightarrow> int \<Rightarrow> BasicBlock list" where
  "linkedChain gDvm desc numMaxInsts =
     (let scanned = scanTrace gDvm desc numMaxInsts (scanStart desc)
      in fst (linkBlocks gDvm (method' desc) 0 (chain scanned, numBlocksT scanned)))"

definition codeBlocks :: "DvmGlobals \<Rightarrow> JitTraceDescription \<Rightarrow> int \<Rightarrow> nat" where
  "codeBlocks gDvm desc numMaxInsts =
     length (chain (scanTrace gDvm desc numMaxInsts (scanStart desc)))"

definition chainAt :: "DvmGlobals \<Rightarrow> JitTraceDescription \<Rightarrow> int \<Rightarrow> nat \<Rightarrow> BasicBlock list" where
  "chainAt gDvm desc numMaxInsts i =
     (let scanned = scanTrace gDvm desc numMaxInsts (scanStart desc)
      in fst (linkedUpTo gDvm (method' desc) i (chain scanned, numBlocksT scanned)))"

subsection \<open>Example inputs\<close>

text \<open>
  A small decode table and method to run the definitions on: the operand decoder puts
  the sign-extended high byte of the first unit in \<open>vA\<close> and the sign-extended second
  unit in \<open>vB\<close> and \<open>vC\<close>; widths and flags follow the Dalvik instruction formats for
  the opcodes named.
\<close>

definition codeUnits :: "u2 list \<Rightarrow> nat \<Rightarrow> u2" where
  "codeUnits xs i = (if i < length xs then xs ! i else 0)"

definition exampleDecode :: "(nat \<Rightarrow> u2) \<Rightarrow> nat \<Rightarrow> DecodedInstruction" where
  "exampleDecode code p =
     \<lparr>vA = scast (ucast (drop_bit 8 (code p)) :: 8 word),
      vB = scast (code (p + 1)),
      vC = scast (code (p + 1)),
      opCode = ucast (code p AND 0xff)\<rparr>"

definition exampleFlags :: "OpCode \<Rightarrow> u4" where
  "exampleFlags op =
     (if op \<in> {OP_GOTO, OP_GOTO_16, OP_GOTO_32} then kInstrCanBranch OR kInstrUnconditional
      else if op \<in> {OP_RETURN_VOID, OP_RETURN, OP_RETURN_WIDE, OP_RETURN_OBJECT} then kInstrCanReturn
      else if op \<in> {OP_IF_EQ, OP_IF_NE, OP_IF_LT, OP_IF_GE, OP_IF_GT, OP_IF_LE,
                    OP_IF_EQZ, OP_IF_NEZ, OP_IF_LTZ, OP_IF_GEZ, OP_IF_GTZ, OP_IF_LEZ}
        then kInstrCanBranch OR kInstrCanContinue
      else if op \<in> {OP_PACKED_SWITCH, OP_SPARSE_SWITCH} then kInstrCanSwitch OR kInstrCanContinue
      else if op = OP_THROW then kInstrCanThrow
      else if op \<in> {OP_INVOKE_VIRTUAL, OP_INVOKE_SUPER, OP_INVOKE_DIRECT, OP_INVOKE_STATIC,
                    OP_INVOKE_INTERFACE, OP_INVOKE_VIRTUAL_RANGE, OP_INVOKE_SUPER_RANGE,
                    OP_INVOKE_DIRECT_RANGE, OP_INVOKE_STATIC_RANGE, OP_INVOKE_INTERFACE_RANGE,
                    OP_INVOKE_VIRTUAL_QUICK, OP_INVOKE_VIRTUAL_QUICK_RANGE,
                    OP_INVOKE_SUPER_QUICK, OP_INVOKE_SUPER_QUICK_RANGE}
        then kInstrCanContinue OR kInstrCanThrow OR kInstrInvoke
      else kInstrCanContinue)"

definition exampleWidth :: "OpCode \<Rightarrow> int" where
  "exampleWidth op =
     (if op \<in> {OP_IF_EQ, OP_IF_NE, OP_IF_LT, OP_IF_GE, OP_IF_GT, OP_IF_LE,
                OP_IF_EQZ, OP_IF_NEZ, OP_IF_LTZ, OP_IF_GEZ, OP_IF_GTZ, OP_IF_LEZ, OP_GOTO_16} then 2
      else if op \<in> {OP_INVOKE_VIRTUAL, OP_INVOKE_SUPER, OP_INVOKE_DIRECT, OP_INVOKE_STATIC,
                    OP_INVOKE_INTERFACE, OP_PACKED_SWITCH, OP_SPARSE_SWITCH, OP_GOTO_32} then 3
      else 1)"

definition exampleDvm :: DvmGlobals where
  "exampleDvm = \<lparr>instrWidth = exampleWidth, instrFlags = exampleFlags,
                 dexDecodeInstruction = exampleDecode\<rparr>"

definition exampleCallee :: Method where
  "exampleCallee = \<lparr>name = ''callee'', methodIndex = 0, accNative = False, insnsPtr = 0x4000\<rparr>"

definition exampleMethod :: "u2 list \<Rightarrow> CallerMethod" where
  "exampleMethod units =
     \<lparr>name = ''run'', methodIndex = 1, accNative = False, insnsPtr = 0x2000,
      clazz = \<lparr>descriptor = ''LFoo;'', pResMethods = (\<lambda>_. exampleCallee),
               superVtable = (\<lambda>_. exampleCallee)\<rparr>,
      dexCode = \<lparr>insnsSize = length units, insns = codeUnits units\<rparr>\<rparr>"

definition exampleTrace :: "u2 list \<Rightarrow> (u4 \<times> u4) list \<Rightarrow> JitTraceDescription" where
  "exampleTrace units runs =
     \<lparr>method' = exampleMethod units,
      trace = (\<lambda>i. if i < length runs
                    then \<lparr>frag_startOffset = fst (runs ! i), frag_numInsts = snd (runs ! i),
                          frag_runEnd = (Suc i = length runs)\<rparr>
                    else \<lparr>frag_startOffset = 0, frag_numInsts = 0, frag_runEnd = True\<rparr>)\<rparr>"

definition exampleJit :: DvmJitGlobals where
  "exampleJit = \<lparr>jitPrintMe = False, methodTable = None, includeSelectedMethod = False\<rparr>"

definition mirOf :: "OpCode \<Rightarrow> MIR" where
  "mirOf op = \<lparr>dalvikInsn = \<lparr>vA = 0, vB = 0, vC = 0, opCode = op\<rparr>, width = 1, offset = 0\<rparr>"


definition invokeVirtualTrace :: JitTraceDescription where
  "invokeVirtualTrace = exampleTrace [0x006e, 0x0001, 0x0000, 0x000e] [(0, 1)]"

definition branchTrace :: JitTraceDescription where
  "branchTrace = exampleTrace [0x0338, 0x0003, 0x0000, 0x000e] [(0, 1), (3, 1)]"

text \<open>
  A trace of two runs in which the second block ends in an \<^verbatim>\<open>invoke-virtual\<close> at the
  offset the \<^verbatim>\<open>if-eqz\<close> of the first block branches to.
\<close>

definition sharedCellTrace :: JitTraceDescription where
  "sharedCellTrace = exampleTrace [0x0038, 0x0005, 0, 0, 0, 0x006e, 0, 0] [(0, 1), (2, 4)]"

definition excludeFoo :: DvmJitGlobals where
  "excludeFoo = \<lparr>jitPrintMe = False, methodTable = Some [''LBar;'', ''LFoo;''],
                 includeSelectedMethod = False\<rparr>"

definition rejectAll :: "CompilationUnit \<Rightarrow> AssemblerResult" where
  "rejectAll cUnit = \<lparr>asmHalveInstCount = True, asmBaseAddr = 0, asmHeaderSize = 0\<rparr>"

definition midBranchMethod :: CallerMethod where
  "midBranchMethod = exampleMethod [0x0038, 0x0003, 0x006e, 0x0000, 0x0000, 0x000e]"

definition packedSwitchMethod :: CallerMethod where
  "packedSwitchMethod =
     exampleMethod [0x002b, 0x0004, 0x0000, 0x000e, kPackedSwitchSignature, 1, 0, 0, 3, 0]"

section \<open>Properties\<close>

subsection \<open>The instruction decoder\<close>

lemma parseInsn_pseudo_zero:
  "ucast (code p AND 0xff) = OP_NOP \<Longrightarrow> code p \<noteq> 0 \<Longrightarrow> snd (parseInsn gDvm code p) = 0"
  by (simp add: parseInsn_def Let_def)

text \<open>
  C1. The claim gives inline data the widths 4 + entries*2 (packed switch),
  2 + entries*4 (sparse switch) and 4 + ceil(size*elemWidth/2) (array data). The code
  computes them and then overwrites the result: on a packed-switch payload of 2 entries
  (claimed width 8), a sparse-switch payload of 1 entry (claimed width 6) and an
  array-data payload of 3 one-byte elements (claimed width 6), \<open>parseInsn\<close> returns 0.
\<close>

theorem parseInsn_inline_data_width:
  "snd (parseInsn gDvm (codeUnits [kPackedSwitchSignature, 2, 0, 0, 5, 0, 9, 0]) 0) = 0
   \<and> inlineDataWidth_spec (codeUnits [kPackedSwitchSignature, 2, 0, 0, 5, 0, 9, 0]) 0 = 8
   \<and> snd (parseInsn gDvm (codeUnits [kSparseSwitchSignature, 1, 7, 0, 3, 0]) 0) = 0
   \<and> inlineDataWidth_spec (codeUnits [kSparseSwitchSignature, 1, 7, 0, 3, 0]) 0 = 6
   \<and> snd (parseInsn gDvm (codeUnits [kArrayDataSignature, 1, 3, 0, 0x0201, 0x0003]) 0) = 0
   \<and> inlineDataWidth_spec (codeUnits [kArrayDataSignature, 1, 3, 0, 0x0201, 0x0003]) 0 = 6"
  by (simp add: parseInsn_def inlineDataWidth_spec_def Let_def codeUnits_def OP_NOP_def
      kPackedSwitchSignature_def kSparseSwitchSignature_def kArrayDataSignature_def)

subsection \<open>The boundary classifier\<close>

text \<open>
  C7. For a static, direct, super or super-quick invoke, \<open>findBlockBoundary\<close> returns
  true, sets \<^verbatim>\<open>isInvoke\<close>, and stores the callee: the entry \<open>vB\<close> of the resolved-method
  table for static and direct invokes, the entry of the superclass's dispatch table at
  that method's index for super invokes, and the entry \<open>vB\<close> of the dispatch table for
  super-quick invokes. The target is overwritten with the callee's code address exactly
  when the callee is not native; otherwise it keeps the value it came in with.
\<close>

theorem findBlockBoundary_static_callee:
  assumes "opCode (dalvikInsn insn) \<in>
     {OP_INVOKE_STATIC, OP_INVOKE_STATIC_RANGE, OP_INVOKE_DIRECT, OP_INVOKE_DIRECT_RANGE,
      OP_INVOKE_SUPER, OP_INVOKE_SUPER_RANGE, OP_INVOKE_SUPER_QUICK, OP_INVOKE_SUPER_QUICK_RANGE}"
  shows "findBlockBoundary caller insn off (target, isInvoke, callee) =
     (let op = opCode (dalvikInsn insn);
          idx = unat (vB (dalvikInsn insn));
          c = (if op \<in> {OP_INVOKE_SUPER, OP_INVOKE_SUPER_RANGE}
               then superVtable (clazz caller) (methodIndex (pResMethods (clazz caller) idx))
               else if op \<in> {OP_INVOKE_SUPER_QUICK, OP_INVOKE_SUPER_QUICK_RANGE}
               then superVtable (clazz caller) idx
               else pResMethods (clazz caller) idx)
      in (True, if dvmIsNativeMethod c then target else insnsPtr c, True, Some c))"
proof -
  from assms consider
      "opCode (dalvikInsn insn) = OP_INVOKE_STATIC" | "opCode (dalvikInsn insn) = OP_INVOKE_STATIC_RANGE"
    | "opCode (dalvikInsn insn) = OP_INVOKE_DIRECT" | "opCode (dalvikInsn insn) = OP_INVOKE_DIRECT_RANGE"
    | "opCode (dalvikInsn insn) = OP_INVOKE_SUPER" | "opCode (dalvikInsn insn) = OP_INVOKE_SUPER_RANGE"
    | "opCode (dalvikInsn insn) = OP_INVOKE_SUPER_QUICK"
    | "opCode (dalvikInsn insn) = OP_INVOKE_SUPER_QUICK_RANGE"
    by blast
  then show ?thesis
    by cases (simp_all add: findBlockBoundary_def Let_def opcode_defs)
qed

theorem findBlockBoundary_static_callee_witness:
  "findBlockBoundary (exampleMethod []) (mirOf OP_INVOKE_STATIC) 7 (7, False, None)
     = (True, 0x4000, True, Some exampleCallee)
   \<and> findBlockBoundary
        ((exampleMethod [])\<lparr>clazz := (clazz (exampleMethod []))
            \<lparr>superVtable := (\<lambda>_. exampleCallee\<lparr>accNative := True\<rparr>)\<rparr>\<rparr>)
        (mirOf OP_INVOKE_SUPER_QUICK) 7 (7, False, None)
     = (True, 7, True, Some (exampleCallee\<lparr>accNative := True\<rparr>))"
  using findBlockBoundary_static_callee [of "mirOf OP_INVOKE_STATIC" "exampleMethod []" 7 7 False None]
    findBlockBoundary_static_callee [of "mirOf OP_INVOKE_SUPER_QUICK"
      "(exampleMethod [])\<lparr>clazz := (clazz (exampleMethod []))
            \<lparr>superVtable := (\<lambda>_. exampleCallee\<lparr>accNative := True\<rparr>)\<rparr>\<rparr>" 7 7 False None]
  by (simp add: mirOf_def exampleMethod_def exampleCallee_def dvmIsNativeMethod_def opcode_defs)

text \<open>
  C8. \<open>isUnconditionalBranch\<close> is true exactly for the four return opcodes and the three
  goto encodings; in particular it is false for throw, for every conditional branch, for
  every invoke, for the two switches and for the no-op.
\<close>

theorem isUnconditionalBranch_exact:
  "(isUnconditionalBranch insn \<longleftrightarrow>
      opCode (dalvikInsn insn) \<in> {OP_RETURN_VOID, OP_RETURN, OP_RETURN_WIDE, OP_RETURN_OBJECT,
                                  OP_GOTO, OP_GOTO_16, OP_GOTO_32})
   \<and> (opCode (dalvikInsn insn) \<in>
         {OP_THROW, OP_IF_EQ, OP_IF_NE, OP_IF_LT, OP_IF_GE, OP_IF_GT, OP_IF_LE,
          OP_IF_EQZ, OP_IF_NEZ, OP_IF_LTZ, OP_IF_GEZ, OP_IF_GTZ, OP_IF_LEZ,
          OP_INVOKE_VIRTUAL, OP_INVOKE_SUPER, OP_INVOKE_DIRECT, OP_INVOKE_STATIC,
          OP_INVOKE_INTERFACE, OP_INVOKE_VIRTUAL_RANGE, OP_INVOKE_SUPER_RANGE,
          OP_INVOKE_DIRECT_RANGE, OP_INVOKE_STATIC_RANGE, OP_INVOKE_INTERFACE_RANGE,
          OP_INVOKE_VIRTUAL_QUICK, OP_INVOKE_VIRTUAL_QUICK_RANGE, OP_INVOKE_SUPER_QUICK,
          OP_INVOKE_SUPER_QUICK_RANGE, OP_PACKED_SWITCH, OP_SPARSE_SWITCH, OP_NOP}
        \<longrightarrow> \<not> isUnconditionalBranch insn)"
proof -
  have exact: "isUnconditionalBranch insn \<longleftrightarrow>
      opCode (dalvikInsn insn) \<in> {OP_RETURN_VOID, OP_RETURN, OP_RETURN_WIDE, OP_RETURN_OBJECT,
                                  OP_GOTO, OP_GOTO_16, OP_GOTO_32}"
    by (simp add: isUnconditionalBranch_def Let_def)
  show ?thesis
    unfolding exact by (auto simp: opcode_defs)
qed

theorem isUnconditionalBranch_exact_witness:
  "isUnconditionalBranch (mirOf OP_GOTO_16) \<and> \<not> isUnconditionalBranch (mirOf OP_THROW)
   \<and> \<not> isUnconditionalBranch (mirOf OP_IF_EQZ) \<and> \<not> isUnconditionalBranch (mirOf OP_INVOKE_STATIC)"
  using isUnconditionalBranch_exact [of "mirOf OP_GOTO_16"]
    isUnconditionalBranch_exact [of "mirOf OP_THROW"]
    isUnconditionalBranch_exact [of "mirOf OP_IF_EQZ"]
    isUnconditionalBranch_exact [of "mirOf OP_INVOKE_STATIC"]
  by (simp add: mirOf_def opcode_defs)

subsection \<open>The trace builder: invariants of the two passes\<close>

declare scanTrace.simps [simp del]

lemma scanTrace_inv:
  "scanInv s \<Longrightarrow> scanDone (scanTrace gDvm desc numMaxInsts s)"
proof (induction gDvm desc numMaxInsts s rule: scanTrace.induct)
  case (1 gDvm desc numMaxInsts s)
  let ?curBB = "length (chain s) - 1"
  let ?parsed = "parseInsn gDvm (insns (dexCode (method' desc))) (codePtr s)"
  let ?insn = "\<lparr>dalvikInsn = fst ?parsed, width = snd ?parsed, offset = curOffset s\<rparr>"
  let ?s1 = "s\<lparr>traceSize := traceSize s + snd ?parsed,
                 chain := (chain s)[?curBB := dvmCompilerAppendMIR (chain s ! ?curBB) ?insn],
                 cuNumInsts := cuNumInsts s + 1\<rparr>"
  let ?nextRun = "trace desc (currRun ?s1 + 1)"
  let ?newBB = "(dvmCompilerNewBB DALVIK_BYTECODE)
                  \<lparr>id' := numBlocksT ?s1, startOffset := frag_startOffset ?nextRun\<rparr>"
  let ?s2 = "?s1\<lparr>chain := chain ?s1 @ [?newBB],
                        numBlocksT := numBlocksT ?s1 + 1,
                        currRun := currRun ?s1 + 1,
                        curOffset := frag_startOffset ?nextRun,
                        numInstsLeft := frag_numInsts ?nextRun,
                        codePtr := unat (frag_startOffset ?nextRun)\<rparr>"
  let ?s3 = "?s1\<lparr>numInstsLeft := numInstsLeft ?s1 - 1,
                    curOffset := curOffset ?s1 + word_of_int (snd ?parsed),
                    codePtr := codePtr ?s1 + nat (snd ?parsed)\<rparr>"
  from "1.prems" have ne: "chain s \<noteq> []" by (simp add: scanInv_def)
  have d1: "scanDone ?s1"
    using "1.prems" ne unfolding scanInv_def scanDone_def
    by (auto simp: dvmCompilerAppendMIR_def nth_list_update)
  then have i1: "scanInv ?s1" by (simp add: scanDone_def)
  have i2: "scanInv ?s2"
    using d1 unfolding scanInv_def scanDone_def
    by (auto simp: dvmCompilerNewBB_def nth_append)
  have i3: "scanInv ?s3"
    using i1 unfolding scanInv_def by simp
  have d0: "scanDone (?s1\<lparr>numInstsLeft := 0\<rparr>)"
    using d1 unfolding scanInv_def scanDone_def by simp
  have eq: "scanTrace gDvm desc numMaxInsts s =
      (if numMaxInsts \<le> cuNumInsts ?s1 then ?s1
       else if numInstsLeft ?s1 - 1 = 0 then
         (if frag_runEnd (trace desc (currRun ?s1)) then ?s1\<lparr>numInstsLeft := 0\<rparr>
          else scanTrace gDvm desc numMaxInsts ?s2)
       else scanTrace gDvm desc numMaxInsts ?s3)"
    by (subst scanTrace.simps) (simp only: Let_def)
  have r2: "scanDone (scanTrace gDvm desc numMaxInsts ?s2)"
    if "\<not> numMaxInsts \<le> cuNumInsts ?s1" "numInstsLeft ?s1 - 1 = 0"
       "\<not> frag_runEnd (trace desc (currRun ?s1))"
    using "1.IH"(1) [OF refl refl refl refl refl that refl refl i2] .
  have r3: "scanDone (scanTrace gDvm desc numMaxInsts ?s3)"
    if "\<not> numMaxInsts \<le> cuNumInsts ?s1" "numInstsLeft ?s1 - 1 \<noteq> 0"
    using "1.IH"(2) [OF refl refl refl refl refl that i3] .
  show ?case
    unfolding eq using d1 d0 r2 r3 by (simp del: One_nat_def)
qed

lemma searchBlocks_fst:
  "fst (searchBlocks t f k bs e) = fst e
   \<or> (\<exists>j. fst (searchBlocks t f k bs e) = Some j \<and> k \<le> j \<and> j < k + length bs
          \<and> startOffset (bs ! (j - k)) = t)"
proof (induction bs arbitrary: k e)
  case Nil
  then show ?case by simp
next
  case (Cons b bs)
  let ?e = "(if t = startOffset b then Some k else fst e, if f = startOffset b then Some k else snd e)"
  let ?r = "fst (searchBlocks t f (Suc k) bs ?e)"
  have r: "fst (searchBlocks t f k (b # bs) e) = ?r" by simp
  from Cons.IH [of "Suc k" ?e]
  consider "?r = fst ?e"
    | j where "?r = Some j" "Suc k \<le> j" "j < Suc k + length bs" "startOffset (bs ! (j - Suc k)) = t"
    by blast
  then show ?case
  proof cases
    case 1
    show ?thesis
    proof (cases "t = startOffset b")
      case True
      with 1 have "?r = Some k \<and> k \<le> k \<and> k < k + length (b # bs) \<and> startOffset ((b # bs) ! (k - k)) = t"
        by simp
      then show ?thesis unfolding r by blast
    next
      case False
      with 1 show ?thesis unfolding r by simp
    qed
  next
    case 2
    then have "?r = Some j \<and> k \<le> j \<and> j < k + length (b # bs) \<and> startOffset ((b # bs) ! (j - k)) = t"
      by (simp add: nth_Cons' Suc_diff_le)
    then show ?thesis unfolding r by blast
  qed
qed

lemma searchBlocks_snd:
  "snd (searchBlocks t f k bs e) = snd e
   \<or> (\<exists>j. snd (searchBlocks t f k bs e) = Some j \<and> k \<le> j \<and> j < k + length bs
          \<and> startOffset (bs ! (j - k)) = f)"
proof (induction bs arbitrary: k e)
  case Nil
  then show ?case by simp
next
  case (Cons b bs)
  let ?e = "(if t = startOffset b then Some k else fst e, if f = startOffset b then Some k else snd e)"
  let ?r = "snd (searchBlocks t f (Suc k) bs ?e)"
  have r: "snd (searchBlocks t f k (b # bs) e) = ?r" by simp
  from Cons.IH [of "Suc k" ?e]
  consider "?r = snd ?e"
    | j where "?r = Some j" "Suc k \<le> j" "j < Suc k + length bs" "startOffset (bs ! (j - Suc k)) = f"
    by blast
  then show ?case
  proof cases
    case 1
    show ?thesis
    proof (cases "f = startOffset b")
      case True
      with 1 have "?r = Some k \<and> k \<le> k \<and> k < k + length (b # bs) \<and> startOffset ((b # bs) ! (k - k)) = f"
        by simp
      then show ?thesis unfolding r by blast
    next
      case False
      with 1 show ?thesis unfolding r by simp
    qed
  next
    case 2
    then have "?r = Some j \<and> k \<le> j \<and> j < k + length (b # bs) \<and> startOffset ((b # bs) ! (j - k)) = f"
      by (simp add: nth_Cons' Suc_diff_le)
    then show ?thesis unfolding r by blast
  qed
qed

lemma search_taken:
  assumes "i < length ch"
  shows "fst (searchBlocks t f (Suc i) (drop (Suc i) ch) e) = fst e
     \<or> (\<exists>j. fst (searchBlocks t f (Suc i) (drop (Suc i) ch) e) = Some j \<and> i < j \<and> j < length ch
            \<and> startOffset (ch ! j) = t)"
  using searchBlocks_fst [of t f "Suc i" "drop (Suc i) ch" e] assms
  by (auto simp: less_eq_Suc_le)

lemma search_fall:
  assumes "i < length ch"
  shows "snd (searchBlocks t f (Suc i) (drop (Suc i) ch) e) = snd e
     \<or> (\<exists>j. snd (searchBlocks t f (Suc i) (drop (Suc i) ch) e) = Some j \<and> i < j \<and> j < length ch
            \<and> startOffset (ch ! j) = f)"
  using searchBlocks_snd [of t f "Suc i" "drop (Suc i) ch" e] assms
  by (auto simp: less_eq_Suc_le)

lemma chainExt_refl: "chainExt i ch ch"
  by (auto simp: chainExt_def)

lemma chainExt_trans:
  assumes "chainExt i a b" "chainExt i b c"
  shows "chainExt i a c"
proof -
  have l: "length a \<le> length b" "length b \<le> length c"
    using assms by (simp_all add: chainExt_def)
  have old: "(k \<noteq> i \<longrightarrow> c ! k = a ! k)
            \<and> startOffset (c ! k) = startOffset (a ! k)
            \<and> blockType (c ! k) = blockType (a ! k)
            \<and> mirInsns (c ! k) = mirInsns (a ! k)
            \<and> id' (c ! k) = id' (a ! k)" if "k < length a" for k
  proof -
    from that l have kb: "k < length b" by simp
    from assms(1) that have 1: "(k \<noteq> i \<longrightarrow> b ! k = a ! k)
            \<and> startOffset (b ! k) = startOffset (a ! k)
            \<and> blockType (b ! k) = blockType (a ! k)
            \<and> mirInsns (b ! k) = mirInsns (a ! k)
            \<and> id' (b ! k) = id' (a ! k)"
      unfolding chainExt_def by blast
    from assms(2) kb have 2: "(k \<noteq> i \<longrightarrow> c ! k = b ! k)
            \<and> startOffset (c ! k) = startOffset (b ! k)
            \<and> blockType (c ! k) = blockType (b ! k)
            \<and> mirInsns (c ! k) = mirInsns (b ! k)
            \<and> id' (c ! k) = id' (b ! k)"
      unfolding chainExt_def by blast
    from 1 2 show ?thesis by simp
  qed
  have new: "isChainingCell (blockType (c ! k)) \<and> mirInsns (c ! k) = [] \<and> id' (c ! k) = int k"
    if "length a \<le> k" "k < length c" for k
  proof (cases "k < length b")
    case True
    with assms(1) that have "isChainingCell (blockType (b ! k)) \<and> mirInsns (b ! k) = []
        \<and> id' (b ! k) = int k"
      unfolding chainExt_def by blast
    moreover from assms(2) True have "blockType (c ! k) = blockType (b ! k)
        \<and> mirInsns (c ! k) = mirInsns (b ! k) \<and> id' (c ! k) = id' (b ! k)"
      unfolding chainExt_def by blast
    ultimately show ?thesis by simp
  next
    case False
    with assms(2) that show ?thesis unfolding chainExt_def by simp
  qed
  show ?thesis
    unfolding chainExt_def using l old new by auto
qed

lemma resolveEdges_ext:
  "i < length ch \<Longrightarrow> chainExt i ch (resolveEdges t f flags i ch)"
  by (auto simp: resolveEdges_def chainExt_def Let_def nth_list_update)

lemma resolveEdges_length [simp]: "length (resolveEdges t f flags i ch) = length ch"
  by (simp add: resolveEdges_def Let_def)

lemma appendBB_fst: "fst (appendBB bb st) = fst st @ [bb\<lparr>id' := snd st\<rparr>]"
  by (simp add: appendBB_def)

lemma appendBB_snd: "snd (appendBB bb st) = snd st + 1"
  by (simp add: appendBB_def)

lemma takenCell_ext:
  assumes "snd st = int (length (fst st))" "i < length (fst st)"
  shows "chainExt i (fst st) (fst (takenCell t off isInv callee flags i st))
     \<and> snd (takenCell t off isInv callee flags i st)
         = int (length (fst (takenCell t off isInv callee flags i st)))"
  using assms
  by (auto simp: takenCell_def chainExt_def Let_def appendBB_def nth_list_update nth_append
      dvmCompilerNewBB_def isChainingCell_def less_Suc_eq_le)

lemma fallThroughCell_ext:
  assumes "snd st = int (length (fst st))" "i < length (fst st)"
  shows "chainExt i (fst st) (fst (fallThroughCell insn f isInv i st))
     \<and> snd (fallThroughCell insn f isInv i st)
         = int (length (fst (fallThroughCell insn f isInv i st)))"
  using assms
  by (auto simp: fallThroughCell_def chainExt_def Let_def appendBB_def nth_list_update nth_append
      dvmCompilerNewBB_def isChainingCell_def less_Suc_eq_le)

lemma takenOK_ext:
  assumes "chainExt i' ch ch'" "k < length ch" "taken (ch' ! k) = taken (ch ! k)" "takenOK c ch k"
  shows "takenOK c ch' k"
proof -
  have m: "mirInsns (ch' ! k) = mirInsns (ch ! k)"
    using assms(1,2) unfolding chainExt_def by blast
  show ?thesis
    unfolding takenOK_def Let_def m
  proof
    assume "targetOf c (last (mirInsns (ch ! k))) \<noteq> offset (last (mirInsns (ch ! k)))"
    with assms(4) obtain j where j: "taken (ch ! k) = Some j" "k < j" "j < length ch"
      "blockType (ch ! j) = DALVIK_BYTECODE \<or> isChainingCell (blockType (ch ! j))"
      "startOffset (ch ! j) = targetOf c (last (mirInsns (ch ! k)))
         \<or> blockType (ch ! j) = CHAINING_CELL_INVOKE \<and> startOffset (ch ! j) = 0"
      unfolding takenOK_def Let_def by blast
    from assms(1) j(3) have s: "startOffset (ch' ! j) = startOffset (ch ! j)"
      "blockType (ch' ! j) = blockType (ch ! j)" "j < length ch'"
      unfolding chainExt_def by auto
    show "\<exists>j. taken (ch' ! k) = Some j \<and> k < j \<and> j < length ch'
           \<and> (blockType (ch' ! j) = DALVIK_BYTECODE \<or> isChainingCell (blockType (ch' ! j)))
           \<and> (startOffset (ch' ! j) = targetOf c (last (mirInsns (ch ! k)))
                \<or> blockType (ch' ! j) = CHAINING_CELL_INVOKE \<and> startOffset (ch' ! j) = 0)"
      using j s assms(3) by auto
  qed
qed

lemma fallThroughOK_ext:
  assumes "chainExt i' ch ch'" "k < length ch" "fallThrough (ch' ! k) = fallThrough (ch ! k)"
    "fallThroughOK ch k"
  shows "fallThroughOK ch' k"
proof -
  have m: "mirInsns (ch' ! k) = mirInsns (ch ! k)"
    using assms(1,2) unfolding chainExt_def by blast
  show ?thesis
    unfolding fallThroughOK_def Let_def m
  proof
    assume "\<not> isUnconditionalBranch (last (mirInsns (ch ! k)))"
    with assms(4) obtain j where j: "fallThrough (ch ! k) = Some j" "k < j" "j < length ch"
      "blockType (ch ! j) = DALVIK_BYTECODE \<or> isChainingCell (blockType (ch ! j))"
      "startOffset (ch ! j) = offset (last (mirInsns (ch ! k)))
          + word_of_int (width (last (mirInsns (ch ! k))))"
      unfolding fallThroughOK_def Let_def by blast
    from assms(1) j(3) have s: "startOffset (ch' ! j) = startOffset (ch ! j)"
      "blockType (ch' ! j) = blockType (ch ! j)" "j < length ch'"
      unfolding chainExt_def by auto
    show "\<exists>j. fallThrough (ch' ! k) = Some j \<and> k < j \<and> j < length ch'
           \<and> (blockType (ch' ! j) = DALVIK_BYTECODE \<or> isChainingCell (blockType (ch' ! j)))
           \<and> startOffset (ch' ! j) = offset (last (mirInsns (ch ! k)))
                + word_of_int (width (last (mirInsns (ch ! k))))"
      using j s assms(3) by auto
  qed
qed

lemma chainOK_ext:
  assumes "chainOK nb ch n" "chainExt i ch ch'" "n' = int (length ch')"
  shows "chainOK nb ch' n'"
  unfolding chainOK_def
proof (intro conjI allI impI)
  show "nb \<le> length ch'" using assms(1,2) by (simp add: chainOK_def chainExt_def)
  show "n' = int (length ch')" by fact
  fix k assume k: "k < length ch'"
  show "id' (ch' ! k) = int k"
  proof (cases "k < length ch")
    case True
    with assms(1,2) show ?thesis unfolding chainOK_def chainExt_def by auto
  next
    case False
    with assms(2) k show ?thesis unfolding chainExt_def by auto
  qed
  show "if k < nb then blockType (ch' ! k) = DALVIK_BYTECODE \<and> mirInsns (ch' ! k) \<noteq> []
        else isChainingCell (blockType (ch' ! k)) \<and> mirInsns (ch' ! k) = []"
  proof (cases "k < length ch")
    case True
    with assms(2) have "blockType (ch' ! k) = blockType (ch ! k)" "mirInsns (ch' ! k) = mirInsns (ch ! k)"
      unfolding chainExt_def by auto
    moreover from assms(1) True
    have "if k < nb then blockType (ch ! k) = DALVIK_BYTECODE \<and> mirInsns (ch ! k) \<noteq> []
          else isChainingCell (blockType (ch ! k)) \<and> mirInsns (ch ! k) = []"
      unfolding chainOK_def by blast
    ultimately show ?thesis by simp
  next
    case False
    moreover from assms(1) have "nb \<le> length ch" by (simp add: chainOK_def)
    ultimately have "\<not> k < nb" by simp
    moreover from assms(2) k False
    have "isChainingCell (blockType (ch' ! k)) \<and> mirInsns (ch' ! k) = []"
      unfolding chainExt_def by auto
    ultimately show ?thesis by simp
  qed
qed

lemma takenCell_edge:
  assumes "i < length (fst st)"
    and "taken (fst st ! i) = None
         \<or> (\<exists>j. taken (fst st ! i) = Some j \<and> i < j \<and> j < length (fst st)
                \<and> startOffset (fst st ! j) = t)"
  shows "(t \<noteq> off \<longrightarrow>
           (\<exists>j. taken (fst (takenCell t off isInv callee flags i st) ! i) = Some j \<and> i < j
               \<and> j < length (fst (takenCell t off isInv callee flags i st))
               \<and> (startOffset (fst (takenCell t off isInv callee flags i st) ! j) = t
                    \<or> blockType (fst (takenCell t off isInv callee flags i st) ! j) = CHAINING_CELL_INVOKE
                      \<and> startOffset (fst (takenCell t off isInv callee flags i st) ! j) = 0)))
         \<and> fallThrough (fst (takenCell t off isInv callee flags i st) ! i) = fallThrough (fst st ! i)
         \<and> needFallThroughBranch (fst (takenCell t off isInv callee flags i st) ! i)
             = needFallThroughBranch (fst st ! i)"
proof (cases "t \<noteq> off \<and> taken (fst st ! i) = None")
  case True
  then show ?thesis
    using assms(1)
    by (simp add: takenCell_def Let_def appendBB_def nth_append dvmCompilerNewBB_def)
next
  case False
  then have eq: "takenCell t off isInv callee flags i st = st"
    unfolding takenCell_def by (simp only: if_False)
  show ?thesis
    unfolding eq using False assms(2) by auto
qed

lemma fallThroughCell_edge:
  assumes "i < length (fst st)"
    and "fallThrough (fst st ! i) = None
         \<or> (\<exists>j. fallThrough (fst st ! i) = Some j \<and> i < j \<and> j < length (fst st)
                \<and> startOffset (fst st ! j) = f)"
  shows "(\<not> isUnconditionalBranch insn \<longrightarrow>
           (\<exists>j. fallThrough (fst (fallThroughCell insn f isInv i st) ! i) = Some j \<and> i < j
               \<and> j < length (fst (fallThroughCell insn f isInv i st))
               \<and> startOffset (fst (fallThroughCell insn f isInv i st) ! j) = f))
         \<and> taken (fst (fallThroughCell insn f isInv i st) ! i) = taken (fst st ! i)"
proof (cases "\<not> isUnconditionalBranch insn \<and> fallThrough (fst st ! i) = None")
  case True
  then show ?thesis
    using assms(1)
    by (simp add: fallThroughCell_def Let_def appendBB_def nth_append dvmCompilerNewBB_def)
next
  case False
  then have eq: "fallThroughCell insn f isInv i st = st"
    unfolding fallThroughCell_def by (simp only: if_False)
  show ?thesis
    unfolding eq using False assms(2) by auto
qed

lemma resolveEdges_edge:
  assumes "i < length ch" "taken (ch ! i) = None" "fallThrough (ch ! i) = None"
  shows "(taken (resolveEdges t f flags i ch ! i) = None
          \<or> (\<exists>j. taken (resolveEdges t f flags i ch ! i) = Some j \<and> i < j \<and> j < length ch
                 \<and> startOffset (resolveEdges t f flags i ch ! j) = t))
       \<and> (fallThrough (resolveEdges t f flags i ch ! i) = None
          \<or> (\<exists>j. fallThrough (resolveEdges t f flags i ch ! i) = Some j \<and> i < j \<and> j < length ch
                 \<and> startOffset (resolveEdges t f flags i ch ! j) = f))"
proof -
  let ?e = "searchBlocks t f (Suc i) (drop (Suc i) ch) (taken (ch ! i), fallThrough (ch ! i))"
  have tk: "taken (resolveEdges t f flags i ch ! i) = fst ?e"
    and ft: "fallThrough (resolveEdges t f flags i ch ! i) = snd ?e"
    using assms(1) by (simp_all add: resolveEdges_def Let_def)
  have so: "startOffset (resolveEdges t f flags i ch ! j) = startOffset (ch ! j)" if "j < length ch" for j
    using resolveEdges_ext [OF assms(1), of t f flags] that unfolding chainExt_def by blast
  from search_taken [OF assms(1), of t f "(taken (ch ! i), fallThrough (ch ! i))"]
  have 1: "fst ?e = None \<or> (\<exists>j. fst ?e = Some j \<and> i < j \<and> j < length ch \<and> startOffset (ch ! j) = t)"
    using assms(2) by simp
  from search_fall [OF assms(1), of t f "(taken (ch ! i), fallThrough (ch ! i))"]
  have 2: "snd ?e = None \<or> (\<exists>j. snd ?e = Some j \<and> i < j \<and> j < length ch \<and> startOffset (ch ! j) = f)"
    using assms(3) by simp
  show ?thesis
    unfolding tk ft using 1 2 so by metis
qed

lemma chainOK_type:
  assumes "chainOK nb ch n" "j < length ch"
  shows "blockType (ch ! j) = DALVIK_BYTECODE \<or> isChainingCell (blockType (ch ! j))"
  using assms unfolding chainOK_def by (metis (no_types, lifting))

lemma linkBlock_step:
  assumes ok: "chainOK nb ch n" and i: "i < nb"
    and none: "taken (ch ! i) = None" "fallThrough (ch ! i) = None"
  shows "chainExt i ch (fst (linkBlock gDvm c i (ch, n)))
     \<and> snd (linkBlock gDvm c i (ch, n)) = int (length (fst (linkBlock gDvm c i (ch, n))))
     \<and> takenOK c (fst (linkBlock gDvm c i (ch, n))) i
     \<and> fallThroughOK (fst (linkBlock gDvm c i (ch, n))) i"
proof -
  define L where "L = last (mirInsns (ch ! i))"
  define off where "off = offset L"
  define f where "f = off + word_of_int (width L)"
  define bnd where "bnd = findBlockBoundary c L off (off, False, None)"
  define t where "t = fst (snd bnd)"
  define isInv where "isInv = fst (snd (snd bnd))"
  define callee where "callee = snd (snd (snd bnd))"
  define flags where "flags = instrFlags gDvm (opCode (dalvikInsn L))"
  define st1 where "st1 = (resolveEdges t f flags i ch, n)"
  define st2 where "st2 = takenCell t off isInv callee flags i st1"
  define st3 where "st3 = fallThroughCell L f isInv i st2"
  have lb: "linkBlock gDvm c i (ch, n) = st3"
    by (simp add: linkBlock_def Let_def st3_def st2_def st1_def flags_def callee_def isInv_def
        t_def bnd_def f_def off_def L_def)
  have tdef: "t = targetOf c L"
    by (simp add: t_def bnd_def targetOf_def off_def)
  from ok i have il: "i < length ch" and n: "n = int (length ch)"
    by (simp_all add: chainOK_def)
  have e1: "chainExt i ch (fst st1)" and l1: "length (fst st1) = length ch"
    and n1: "snd st1 = int (length (fst st1))"
    using resolveEdges_ext [OF il] n by (simp_all add: st1_def)
  have il1: "i < length (fst st1)" using il l1 by simp
  have e2: "chainExt i (fst st1) (fst st2)" and n2: "snd st2 = int (length (fst st2))"
    using takenCell_ext [OF n1 il1, of t off isInv callee flags] by (simp_all add: st2_def)
  have il2: "i < length (fst st2)" using il1 e2 by (simp add: chainExt_def)
  have e3: "chainExt i (fst st2) (fst st3)" and n3: "snd st3 = int (length (fst st3))"
    using fallThroughCell_ext [OF n2 il2, of L f isInv] by (simp_all add: st3_def)
  have ext: "chainExt i ch (fst st3)"
    using chainExt_trans [OF chainExt_trans [OF e1 e2] e3] .
  have ok3: "chainOK nb (fst st3) (snd st3)"
    using chainOK_ext [OF ok ext n3] .
  have m3: "mirInsns (fst st3 ! i) = mirInsns (ch ! i)"
    using ext il unfolding chainExt_def by blast
  from resolveEdges_edge [OF il none, of t f flags]
  have p1: "taken (fst st1 ! i) = None
         \<or> (\<exists>j. taken (fst st1 ! i) = Some j \<and> i < j \<and> j < length (fst st1)
                \<and> startOffset (fst st1 ! j) = t)"
    and q1: "fallThrough (fst st1 ! i) = None
         \<or> (\<exists>j. fallThrough (fst st1 ! i) = Some j \<and> i < j \<and> j < length (fst st1)
                \<and> startOffset (fst st1 ! j) = f)"
    by (simp_all add: st1_def)
  from takenCell_edge [OF il1 p1, of off isInv callee flags]
  have p2: "t \<noteq> off \<longrightarrow>
           (\<exists>j. taken (fst st2 ! i) = Some j \<and> i < j \<and> j < length (fst st2)
               \<and> (startOffset (fst st2 ! j) = t
                    \<or> blockType (fst st2 ! j) = CHAINING_CELL_INVOKE \<and> startOffset (fst st2 ! j) = 0))"
    and f2: "fallThrough (fst st2 ! i) = fallThrough (fst st1 ! i)"
    by (simp_all add: st2_def)
  have q2: "fallThrough (fst st2 ! i) = None
         \<or> (\<exists>j. fallThrough (fst st2 ! i) = Some j \<and> i < j \<and> j < length (fst st2)
                \<and> startOffset (fst st2 ! j) = f)"
  proof (cases "fallThrough (fst st1 ! i)")
    case None
    then show ?thesis using f2 by simp
  next
    case (Some j)
    with q1 have j: "i < j" "j < length (fst st1)" "startOffset (fst st1 ! j) = f" by auto
    with e2 have "j < length (fst st2)" "startOffset (fst st2 ! j) = f"
      unfolding chainExt_def by auto
    with Some j f2 show ?thesis by simp
  qed
  from fallThroughCell_edge [OF il2 q2, of L isInv]
  have q3: "\<not> isUnconditionalBranch L \<longrightarrow>
           (\<exists>j. fallThrough (fst st3 ! i) = Some j \<and> i < j \<and> j < length (fst st3)
               \<and> startOffset (fst st3 ! j) = f)"
    and t3: "taken (fst st3 ! i) = taken (fst st2 ! i)"
    by (simp_all add: st3_def)
  have tk: "takenOK c (fst st3) i"
    unfolding takenOK_def Let_def m3 L_def [symmetric] tdef [symmetric] off_def [symmetric]
  proof
    assume "t \<noteq> off"
    with p2 obtain j where j: "taken (fst st2 ! i) = Some j" "i < j" "j < length (fst st2)"
      "startOffset (fst st2 ! j) = t
         \<or> blockType (fst st2 ! j) = CHAINING_CELL_INVOKE \<and> startOffset (fst st2 ! j) = 0"
      by blast
    from e3 j(3) have s: "startOffset (fst st3 ! j) = startOffset (fst st2 ! j)"
      "blockType (fst st3 ! j) = blockType (fst st2 ! j)" "j < length (fst st3)"
      unfolding chainExt_def by auto
    from chainOK_type [OF ok3 s(3)] j s t3
    show "\<exists>j. taken (fst st3 ! i) = Some j \<and> i < j \<and> j < length (fst st3)
           \<and> (blockType (fst st3 ! j) = DALVIK_BYTECODE \<or> isChainingCell (blockType (fst st3 ! j)))
           \<and> (startOffset (fst st3 ! j) = t
                \<or> blockType (fst st3 ! j) = CHAINING_CELL_INVOKE \<and> startOffset (fst st3 ! j) = 0)"
      by auto
  qed
  have ft: "fallThroughOK (fst st3) i"
    unfolding fallThroughOK_def Let_def m3 L_def [symmetric] off_def [symmetric] f_def [symmetric]
  proof
    assume "\<not> isUnconditionalBranch L"
    with q3 obtain j where j: "fallThrough (fst st3 ! i) = Some j" "i < j" "j < length (fst st3)"
      "startOffset (fst st3 ! j) = f"
      by blast
    from chainOK_type [OF ok3 j(3)] j
    show "\<exists>j. fallThrough (fst st3 ! i) = Some j \<and> i < j \<and> j < length (fst st3)
           \<and> (blockType (fst st3 ! j) = DALVIK_BYTECODE \<or> isChainingCell (blockType (fst st3 ! j)))
           \<and> startOffset (fst st3 ! j) = f"
      by auto
  qed
  show ?thesis
    unfolding lb using ext n3 tk ft by simp
qed

declare linkBlocks.simps [simp del]

lemma linkBlocks_inv:
  assumes "chainOK nb (fst st) (snd st)" "i \<le> nb"
    and "\<forall>k < i. takenOK c (fst st) k \<and> fallThroughOK (fst st) k"
    and "\<forall>k. i \<le> k \<and> k < nb \<longrightarrow> taken (fst st ! k) = None \<and> fallThrough (fst st ! k) = None"
  shows "chainOK nb (fst (linkBlocks gDvm c i st)) (snd (linkBlocks gDvm c i st))
     \<and> (\<forall>k < nb. takenOK c (fst (linkBlocks gDvm c i st)) k
                 \<and> fallThroughOK (fst (linkBlocks gDvm c i st)) k)"
  using assms
proof (induction gDvm c i st rule: linkBlocks.induct)
  case (1 gDvm c i st)
  obtain ch n where st: "st = (ch, n)" by (cases st)
  from "1.prems"(1) have ok: "chainOK nb ch n" by (simp add: st)
  show ?case
  proof (cases "i < length ch \<and> mirInsns (ch ! i) \<noteq> []")
    case True
    then have il: "i < length ch" and ne: "mirInsns (ch ! i) \<noteq> []" by simp_all
    have inb: "i < nb"
    proof (rule ccontr)
      assume "\<not> i < nb"
      with ok il have "mirInsns (ch ! i) = []" unfolding chainOK_def by auto
      with ne show False by simp
    qed
    let ?st' = "linkBlock gDvm c i st"
    have eq: "linkBlocks gDvm c i st = linkBlocks gDvm c (Suc i) ?st'"
      using il ne by (subst linkBlocks.simps) (simp add: st)
    from "1.prems"(4) inb have none: "taken (ch ! i) = None" "fallThrough (ch ! i) = None"
      by (simp_all add: st)
    from linkBlock_step [OF ok inb none, of gDvm c]
    have ext: "chainExt i ch (fst ?st')" and n': "snd ?st' = int (length (fst ?st'))"
      and tk: "takenOK c (fst ?st') i" and ft: "fallThroughOK (fst ?st') i"
      by (simp_all add: st)
    have ok': "chainOK nb (fst ?st') (snd ?st')"
      using chainOK_ext [OF ok ext n'] .
    have same: "fst ?st' ! k = ch ! k" if "k < length ch" "k \<noteq> i" for k
      using ext that unfolding chainExt_def by blast
    have nbl: "nb \<le> length ch" using ok by (simp add: chainOK_def)
    have done': "\<forall>k < Suc i. takenOK c (fst ?st') k \<and> fallThroughOK (fst ?st') k"
    proof (intro allI impI)
      fix k assume k: "k < Suc i"
      show "takenOK c (fst ?st') k \<and> fallThroughOK (fst ?st') k"
      proof (cases "k = i")
        case True
        with tk ft show ?thesis by simp
      next
        case False
        with k have ki: "k < i" by simp
        then have kl: "k < length ch" using il by simp
        from "1.prems"(3) ki have old: "takenOK c ch k" "fallThroughOK ch k" by (simp_all add: st)
        from same [OF kl False] have e: "taken (fst ?st' ! k) = taken (ch ! k)"
          "fallThrough (fst ?st' ! k) = fallThrough (ch ! k)" by simp_all
        from takenOK_ext [OF ext kl e(1) old(1)] fallThroughOK_ext [OF ext kl e(2) old(2)]
        show ?thesis by simp
      qed
    qed
    have todo': "\<forall>k. Suc i \<le> k \<and> k < nb \<longrightarrow>
        taken (fst ?st' ! k) = None \<and> fallThrough (fst ?st' ! k) = None"
    proof (intro allI impI)
      fix k assume k: "Suc i \<le> k \<and> k < nb"
      then have "k < length ch" "k \<noteq> i" using nbl by simp_all
      from same [OF this] "1.prems"(4) k show
        "taken (fst ?st' ! k) = None \<and> fallThrough (fst ?st' ! k) = None"
        by (simp add: st)
    qed
    have cond: "i < length (fst st)" "mirInsns (fst st ! i) \<noteq> []"
      using il ne by (simp_all add: st)
    from "1.IH" [OF cond ok' _ done' todo'] inb
    show ?thesis unfolding eq by simp
  next
    case False
    have eq: "linkBlocks gDvm c i st = st"
      using False by (subst linkBlocks.simps) (auto simp: st)
    have "i = nb"
    proof (rule ccontr)
      assume "i \<noteq> nb"
      with "1.prems"(2) have "i < nb" by simp
      with ok have "i < length ch" "mirInsns (ch ! i) \<noteq> []" unfolding chainOK_def by auto
      with False show False by simp
    qed
    with "1.prems"(1,3) show ?thesis unfolding eq by simp
  qed
qed

lemma fillBlockList_all: "fillBlockList (length xs) xs = Inr (xs, [])"
  by (induction xs) simp_all

lemma scanDone_chainOK:
  assumes "scanDone s"
  shows "chainOK (length (chain s)) (chain s) (numBlocksT s)"
    and "\<forall>k. 0 \<le> k \<and> k < length (chain s) \<longrightarrow>
           taken (chain s ! k) = None \<and> fallThrough (chain s ! k) = None"
    and "0 < length (chain s)"
  using assms unfolding scanDone_def scanInv_def chainOK_def by auto

lemma scanStart_inv: "scanInv (scanStart desc)"
  by (simp add: scanInv_def scanStart_def dvmCompilerNewBB_def)

lemma linkedChain_ok:
  "chainOK (codeBlocks gDvm desc n) (linkedChain gDvm desc n) (int (length (linkedChain gDvm desc n)))
   \<and> 0 < codeBlocks gDvm desc n
   \<and> (\<forall>k < codeBlocks gDvm desc n.
         takenOK (method' desc) (linkedChain gDvm desc n) k
         \<and> fallThroughOK (linkedChain gDvm desc n) k)
   \<and> snd (linkBlocks gDvm (method' desc) 0
            (chain (scanTrace gDvm desc n (scanStart desc)),
             numBlocksT (scanTrace gDvm desc n (scanStart desc))))
       = int (length (linkedChain gDvm desc n))"
proof -
  let ?s = "scanTrace gDvm desc n (scanStart desc)"
  let ?st = "(chain ?s, numBlocksT ?s)"
  have d: "scanDone ?s" using scanTrace_inv [OF scanStart_inv] .
  note c = scanDone_chainOK [OF d]
  have 1: "chainOK (length (chain ?s)) (fst ?st) (snd ?st)" using c(1) by simp
  have 3: "\<forall>k < 0. takenOK (method' desc) (fst ?st) k \<and> fallThroughOK (fst ?st) k" by simp
  have 4: "\<forall>k. 0 \<le> k \<and> k < length (chain ?s) \<longrightarrow>
      taken (fst ?st ! k) = None \<and> fallThrough (fst ?st ! k) = None"
    using c(2) by simp
  from linkBlocks_inv [OF 1 _ 3 4, of gDvm]
  have r: "chainOK (length (chain ?s)) (fst (linkBlocks gDvm (method' desc) 0 ?st))
          (snd (linkBlocks gDvm (method' desc) 0 ?st))
     \<and> (\<forall>k < length (chain ?s). takenOK (method' desc) (fst (linkBlocks gDvm (method' desc) 0 ?st)) k
                 \<and> fallThroughOK (fst (linkBlocks gDvm (method' desc) 0 ?st)) k)"
    by simp
  then have "snd (linkBlocks gDvm (method' desc) 0 ?st)
      = int (length (fst (linkBlocks gDvm (method' desc) 0 ?st)))"
    by (simp add: chainOK_def)
  with r c(3) show ?thesis
    by (simp add: linkedChain_def codeBlocks_def Let_def)
qed

lemma traceAttempt_eq:
  "traceAttempt gDvm gDvmJit desc n =
     Inr ((traceFilter gDvmJit desc
            \<lparr>numInsts = 0, numBlocks = 0, blockList = [], printMe = jitPrintMe gDvmJit,
             allSingleStep = False, halveInstCount = False, baseAddr = 0, headerSize = 0\<rparr>)
          \<lparr>numInsts := cuNumInsts (scanTrace gDvm desc n (scanStart desc)),
           numBlocks := int (length (linkedChain gDvm desc n)) + 2,
           blockList := linkedChain gDvm desc n
             @ [(dvmCompilerNewBB PC_RECONSTRUCTION)\<lparr>id' := int (length (linkedChain gDvm desc n))\<rparr>,
                (dvmCompilerNewBB EXCEPTION_HANDLING)
                  \<lparr>id' := int (length (linkedChain gDvm desc n)) + 1\<rparr>]\<rparr>)"
proof -
  let ?s = "scanTrace gDvm desc n (scanStart desc)"
  let ?lk = "linkBlocks gDvm (method' desc) 0 (chain ?s, numBlocksT ?s)"
  let ?ch = "linkedChain gDvm desc n"
  have f: "fst ?lk = ?ch" by (simp add: linkedChain_def Let_def)
  have s: "snd ?lk = int (length ?ch)"
    using linkedChain_ok [of gDvm desc n] by blast
  let ?bl = "?ch @ [(dvmCompilerNewBB PC_RECONSTRUCTION)\<lparr>id' := int (length ?ch)\<rparr>,
                (dvmCompilerNewBB EXCEPTION_HANDLING)\<lparr>id' := int (length ?ch) + 1\<rparr>]"
  have a: "appendBB (dvmCompilerNewBB EXCEPTION_HANDLING)
             (appendBB (dvmCompilerNewBB PC_RECONSTRUCTION) ?lk) = (?bl, int (length ?ch) + 2)"
    by (simp add: appendBB_def f s)
  have n: "nat (int (length ?ch) + 2) = length ?bl" by simp
  have fill: "fillBlockList (nat (int (length ?ch) + 2)) ?bl = Inr (?bl, [])"
    unfolding n by (rule fillBlockList_all)
  show ?thesis
    unfolding traceAttempt_def Let_def a fst_conv snd_conv fill
    by simp
qed

subsection \<open>The trace builder: what the forward search finds\<close>

text \<open>
  The forward search leaves the last match in the edge, a chaining cell made during the
  work on a block is the target of one of that block's edges, and \<open>edgesInv\<close> holds
  through the edge loop; hence \<open>inChainAt\<close>, read in the chain after the loop, picks
  the blocks which the search for a block went through.
\<close>

lemma searchBlocks_fst_last:
  "m < length bs \<Longrightarrow> startOffset (bs ! m) = t
     \<Longrightarrow> \<exists>j. fst (searchBlocks t f k bs e) = Some j \<and> k + m \<le> j"
proof (induction bs arbitrary: k e m)
  case Nil
  then show ?case by simp
next
  case (Cons b bs)
  let ?e = "(if t = startOffset b then Some k else fst e, if f = startOffset b then Some k else snd e)"
  have r: "fst (searchBlocks t f k (b # bs) e) = fst (searchBlocks t f (Suc k) bs ?e)" by simp
  show ?case
  proof (cases m)
    case 0
    with Cons.prems have tb: "t = startOffset b" by simp
    from searchBlocks_fst [of t f "Suc k" bs ?e]
    have "fst (searchBlocks t f (Suc k) bs ?e) = Some k
       \<or> (\<exists>j. fst (searchBlocks t f (Suc k) bs ?e) = Some j \<and> Suc k \<le> j)"
      using tb by auto
    then show ?thesis unfolding r 0 by auto
  next
    case (Suc m')
    with Cons.prems have "m' < length bs" "startOffset (bs ! m') = t" by simp_all
    from Cons.IH [OF this, of "Suc k" ?e]
    show ?thesis unfolding r Suc by auto
  qed
qed

lemma search_taken_last:
  assumes "i < length ch"
  shows "case fst (searchBlocks t f (Suc i) (drop (Suc i) ch) (None, e)) of
           None \<Rightarrow> \<forall>j. i < j \<and> j < length ch \<longrightarrow> startOffset (ch ! j) \<noteq> t
         | Some j \<Rightarrow> i < j \<and> j < length ch \<and> startOffset (ch ! j) = t
                      \<and> (\<forall>j'. i < j' \<and> j' < length ch \<and> startOffset (ch ! j') = t \<longrightarrow> j' \<le> j)"
proof -
  let ?r = "fst (searchBlocks t f (Suc i) (drop (Suc i) ch) (None, e))"
  have last: "\<exists>j. ?r = Some j \<and> j' \<le> j"
    if "i < j'" "j' < length ch" "startOffset (ch ! j') = t" for j'
  proof -
    from that have "j' - Suc i < length (drop (Suc i) ch)"
      "startOffset (drop (Suc i) ch ! (j' - Suc i)) = t"
      by simp_all
    from searchBlocks_fst_last [OF this, of f "Suc i" "(None, e)"] that(1)
    show ?thesis by auto
  qed
  show ?thesis
  proof (cases ?r)
    case None
    with last show ?thesis by auto
  next
    case (Some j)
    from search_taken [OF assms, of t f "(None, e)"] Some
    have "i < j \<and> j < length ch \<and> startOffset (ch ! j) = t" by auto
    with last Some show ?thesis by auto
  qed
qed

lemma takenCell_fires:
  assumes "i < length (fst st)"
  shows "if t \<noteq> off \<and> taken (fst st ! i) = None
         then taken (fst (takenCell t off isInv callee flags i st) ! i) = Some (length (fst st))
         else takenCell t off isInv callee flags i st = st"
proof (cases "t \<noteq> off \<and> taken (fst st ! i) = None")
  case True
  then show ?thesis
    using assms
    by (simp add: takenCell_def Let_def appendBB_def nth_append dvmCompilerNewBB_def)
next
  case False
  then have eq: "takenCell t off isInv callee flags i st = st"
    unfolding takenCell_def by (simp only: if_False)
  with False show ?thesis by (simp only: if_False)
qed

lemma takenCell_shape:
  assumes "i < length (fst st)"
  shows "(takenCell t off isInv callee flags i st = st
          \<or> length (fst (takenCell t off isInv callee flags i st)) = Suc (length (fst st))
            \<and> taken (fst (takenCell t off isInv callee flags i st) ! i) = Some (length (fst st)))
       \<and> (t = off \<longrightarrow> takenCell t off isInv callee flags i st = st)
       \<and> fallThrough (fst (takenCell t off isInv callee flags i st) ! i) = fallThrough (fst st ! i)"
proof (cases "t \<noteq> off \<and> taken (fst st ! i) = None")
  case True
  then show ?thesis
    using assms
    by (simp add: takenCell_def Let_def appendBB_def nth_append dvmCompilerNewBB_def)
next
  case False
  then have eq: "takenCell t off isInv callee flags i st = st"
    unfolding takenCell_def by (simp only: if_False)
  have "fallThrough (fst (takenCell t off isInv callee flags i st) ! i) = fallThrough (fst st ! i)"
    unfolding eq by (rule refl)
  with eq show ?thesis by blast
qed

lemma fallThroughCell_shape:
  assumes "i < length (fst st)"
  shows "(fallThroughCell insn f isInv i st = st
          \<or> length (fst (fallThroughCell insn f isInv i st)) = Suc (length (fst st))
            \<and> fallThrough (fst (fallThroughCell insn f isInv i st) ! i) = Some (length (fst st)))
       \<and> taken (fst (fallThroughCell insn f isInv i st) ! i) = taken (fst st ! i)"
proof (cases "\<not> isUnconditionalBranch insn \<and> fallThrough (fst st ! i) = None")
  case True
  then show ?thesis
    using assms
    by (simp add: fallThroughCell_def Let_def appendBB_def nth_append dvmCompilerNewBB_def)
next
  case False
  then have eq: "fallThroughCell insn f isInv i st = st"
    unfolding fallThroughCell_def by (simp only: if_False)
  have "taken (fst (fallThroughCell insn f isInv i st) ! i) = taken (fst st ! i)"
    unfolding eq by (rule refl)
  with eq show ?thesis by blast
qed

lemma linkBlock_edges:
  assumes ok: "chainOK nb ch n" and i: "i < nb"
    and none: "taken (ch ! i) = None" "fallThrough (ch ! i) = None"
  shows "(\<forall>j. taken (fst (linkBlock gDvm c i (ch, n)) ! i) = Some j
              \<or> fallThrough (fst (linkBlock gDvm c i (ch, n)) ! i) = Some j
              \<longrightarrow> j < length (fst (linkBlock gDvm c i (ch, n))))
     \<and> (\<forall>j. length ch \<le> j \<and> j < length (fst (linkBlock gDvm c i (ch, n))) \<longrightarrow>
              taken (fst (linkBlock gDvm c i (ch, n)) ! i) = Some j
              \<or> fallThrough (fst (linkBlock gDvm c i (ch, n)) ! i) = Some j)"
proof -
  define L where "L = last (mirInsns (ch ! i))"
  define off where "off = offset L"
  define f where "f = off + word_of_int (width L)"
  define bnd where "bnd = findBlockBoundary c L off (off, False, None)"
  define t where "t = fst (snd bnd)"
  define isInv where "isInv = fst (snd (snd bnd))"
  define callee where "callee = snd (snd (snd bnd))"
  define flags where "flags = instrFlags gDvm (opCode (dalvikInsn L))"
  define st1 where "st1 = (resolveEdges t f flags i ch, n)"
  define st2 where "st2 = takenCell t off isInv callee flags i st1"
  define st3 where "st3 = fallThroughCell L f isInv i st2"
  have lb: "linkBlock gDvm c i (ch, n) = st3"
    by (simp add: linkBlock_def Let_def st3_def st2_def st1_def flags_def callee_def isInv_def
        t_def bnd_def f_def off_def L_def)
  have tdef: "t = targetOf c L"
    by (simp add: t_def bnd_def targetOf_def off_def)
  from ok i have il: "i < length ch" and n: "n = int (length ch)"
    by (simp_all add: chainOK_def)
  have l1: "length (fst st1) = length ch" by (simp add: st1_def)
  have il1: "i < length (fst st1)" using il l1 by simp
  have n1: "snd st1 = int (length (fst st1))" using n by (simp add: st1_def)
  have e2: "chainExt i (fst st1) (fst st2)"
    using takenCell_ext [OF n1 il1, of t off isInv callee flags] by (simp add: st2_def)
  have il2: "i < length (fst st2)" using il1 e2 by (simp add: chainExt_def)
  let ?e = "searchBlocks t f (Suc i) (drop (Suc i) ch) (None, None)"
  have tk1: "taken (fst st1 ! i) = fst ?e" and ft1: "fallThrough (fst st1 ! i) = snd ?e"
    using il none by (simp_all add: st1_def resolveEdges_def Let_def)
  from search_taken [OF il, of t f "(None, None)"]
  have r1: "fst ?e = None \<or> (\<exists>j. fst ?e = Some j \<and> j < length ch)" by auto
  from search_fall [OF il, of t f "(None, None)"]
  have r2: "snd ?e = None \<or> (\<exists>j. snd ?e = Some j \<and> j < length ch)" by auto
  from takenCell_shape [OF il1, of t off isInv callee flags]
  have s2: "st2 = st1
       \<or> length (fst st2) = Suc (length ch) \<and> taken (fst st2 ! i) = Some (length ch)"
    and s2': "t = off \<longrightarrow> st2 = st1"
    and ft2: "fallThrough (fst st2 ! i) = fallThrough (fst st1 ! i)"
    by (simp_all add: st2_def l1)
  from fallThroughCell_shape [OF il2, of L f isInv]
  have s3: "st3 = st2
       \<or> length (fst st3) = Suc (length (fst st2))
         \<and> fallThrough (fst st3 ! i) = Some (length (fst st2))"
    and tk3: "taken (fst st3 ! i) = taken (fst st2 ! i)"
    by (simp_all add: st3_def)
  have A: "\<forall>j. taken (fst st3 ! i) = Some j \<or> fallThrough (fst st3 ! i) = Some j
              \<longrightarrow> j < length (fst st3)"
    using s2 s3 tk3 ft2 tk1 ft1 r1 r2 l1 by auto
  have B: "\<forall>j. length ch \<le> j \<and> j < length (fst st3) \<longrightarrow>
              taken (fst st3 ! i) = Some j \<or> fallThrough (fst st3 ! i) = Some j"
    using s2 s3 tk3 ft2 l1 by auto
  show ?thesis
    unfolding lb using A B by blast
qed


lemma linkBlock_taken:
  assumes ok: "chainOK nb ch n" and i: "i < nb"
    and none: "taken (ch ! i) = None" "fallThrough (ch ! i) = None"
    and t: "t = targetOf c (last (mirInsns (ch ! i)))"
  shows "if \<exists>j. i < j \<and> j < length ch \<and> startOffset (ch ! j) = t
         then \<exists>j. taken (fst (linkBlock gDvm c i (ch, n)) ! i) = Some j
                \<and> i < j \<and> j < length ch \<and> startOffset (ch ! j) = t
                \<and> (\<forall>j'. i < j' \<and> j' < length ch \<and> startOffset (ch ! j') = t \<longrightarrow> j' \<le> j)
         else if t = offset (last (mirInsns (ch ! i)))
           then taken (fst (linkBlock gDvm c i (ch, n)) ! i) = None
           else taken (fst (linkBlock gDvm c i (ch, n)) ! i) = Some (length ch)"
proof -
  define L where "L = last (mirInsns (ch ! i))"
  define off where "off = offset L"
  define f where "f = off + word_of_int (width L)"
  define bnd where "bnd = findBlockBoundary c L off (off, False, None)"
  define isInv where "isInv = fst (snd (snd bnd))"
  define callee where "callee = snd (snd (snd bnd))"
  define flags where "flags = instrFlags gDvm (opCode (dalvikInsn L))"
  define st1 where "st1 = (resolveEdges t f flags i ch, n)"
  define st2 where "st2 = takenCell t off isInv callee flags i st1"
  define st3 where "st3 = fallThroughCell L f isInv i st2"
  have tdef: "t = fst (snd bnd)"
    by (simp add: t bnd_def targetOf_def off_def L_def)
  have lb: "linkBlock gDvm c i (ch, n) = st3"
    by (simp add: linkBlock_def Let_def st3_def st2_def st1_def flags_def callee_def isInv_def
        tdef bnd_def f_def off_def L_def)
  from ok i have il: "i < length ch" and n: "n = int (length ch)"
    by (simp_all add: chainOK_def)
  have l1: "length (fst st1) = length ch" by (simp add: st1_def)
  have il1: "i < length (fst st1)" using il l1 by simp
  have n1: "snd st1 = int (length (fst st1))" using n by (simp add: st1_def)
  have e2: "chainExt i (fst st1) (fst st2)"
    using takenCell_ext [OF n1 il1, of t off isInv callee flags] by (simp add: st2_def)
  have il2: "i < length (fst st2)" using il1 e2 by (simp add: chainExt_def)
  let ?e = "searchBlocks t f (Suc i) (drop (Suc i) ch) (None, None)"
  have tk1: "taken (fst st1 ! i) = fst ?e"
    using il none by (simp add: st1_def resolveEdges_def Let_def)
  from takenCell_fires [OF il1, of t off isInv callee flags]
  have s2: "if t \<noteq> off \<and> fst ?e = None then taken (fst st2 ! i) = Some (length ch)
            else st2 = st1"
    unfolding st2_def [symmetric] tk1 l1 .
  from fallThroughCell_shape [OF il2, of L f isInv]
  have tk3: "taken (fst st3 ! i) = taken (fst st2 ! i)"
    by (simp add: st3_def)
  note sl = search_taken_last [OF il, of t f None]
  show ?thesis
    unfolding lb L_def [symmetric] off_def [symmetric]
  proof (cases "fst ?e")
    case None
    with sl have no: "\<not> (\<exists>j. i < j \<and> j < length ch \<and> startOffset (ch ! j) = t)" by simp
    have "if t = off then taken (fst st3 ! i) = None else taken (fst st3 ! i) = Some (length ch)"
    proof (cases "t = off")
      case True
      with s2 have "st2 = st1" by simp
      with tk3 tk1 None True show ?thesis by simp
    next
      case False
      with s2 None have "taken (fst st2 ! i) = Some (length ch)" by simp
      with tk3 False show ?thesis by simp
    qed
    with no show "if \<exists>j. i < j \<and> j < length ch \<and> startOffset (ch ! j) = t
         then \<exists>j. taken (fst st3 ! i) = Some j
                \<and> i < j \<and> j < length ch \<and> startOffset (ch ! j) = t
                \<and> (\<forall>j'. i < j' \<and> j' < length ch \<and> startOffset (ch ! j') = t \<longrightarrow> j' \<le> j)
         else if t = off then taken (fst st3 ! i) = None
           else taken (fst st3 ! i) = Some (length ch)"
      by (simp only: if_False)
  next
    case (Some j)
    with sl have j: "i < j" "j < length ch" "startOffset (ch ! j) = t"
      "\<forall>j'. i < j' \<and> j' < length ch \<and> startOffset (ch ! j') = t \<longrightarrow> j' \<le> j"
      by simp_all
    from s2 Some have "st2 = st1" by simp
    with tk3 tk1 Some have tk: "taken (fst st3 ! i) = Some j" by simp
    have yes: "\<exists>j. i < j \<and> j < length ch \<and> startOffset (ch ! j) = t" using j by blast
    have "\<exists>j. taken (fst st3 ! i) = Some j
                \<and> i < j \<and> j < length ch \<and> startOffset (ch ! j) = t
                \<and> (\<forall>j'. i < j' \<and> j' < length ch \<and> startOffset (ch ! j') = t \<longrightarrow> j' \<le> j)"
      using tk j by blast
    with yes show "if \<exists>j. i < j \<and> j < length ch \<and> startOffset (ch ! j) = t
         then \<exists>j. taken (fst st3 ! i) = Some j
                \<and> i < j \<and> j < length ch \<and> startOffset (ch ! j) = t
                \<and> (\<forall>j'. i < j' \<and> j' < length ch \<and> startOffset (ch ! j') = t \<longrightarrow> j' \<le> j)
         else if t = off then taken (fst st3 ! i) = None
           else taken (fst st3 ! i) = Some (length ch)"
      by (simp only: if_True)
  qed
qed

lemma inChainAt_all:
  assumes "chainOK nb ch n" "edgesInv nb i ch"
  shows "inChainAt ch i j = (i < j \<and> j < length ch)"
proof (cases "i < j \<and> j < length ch")
  case False
  then show ?thesis by (auto simp: inChainAt_def)
next
  case True
  have "blockType (ch ! j) = DALVIK_BYTECODE
         \<or> (\<exists>k < i. taken (ch ! k) = Some j \<or> fallThrough (ch ! k) = Some j)"
  proof (cases "j < nb")
    case True
    with assms(1) \<open>i < j \<and> j < length ch\<close> show ?thesis unfolding chainOK_def by auto
  next
    case False
    with assms(2) \<open>i < j \<and> j < length ch\<close> show ?thesis unfolding edgesInv_def by auto
  qed
  with True show ?thesis by (simp add: inChainAt_def)
qed

lemma inChainAt_ext:
  assumes ext: "chainExt i ch ch'" and inv: "edgesInv nb i ch" and k: "k \<le> i" and i: "i < length ch"
  shows "inChainAt ch' k j = inChainAt ch k j"
proof -
  have same: "ch' ! k' = ch ! k'" if "k' < k" for k'
    using ext that k i unfolding chainExt_def by auto
  have rng: "j' < length ch"
    if "k' < k" "taken (ch ! k') = Some j' \<or> fallThrough (ch ! k') = Some j'" for k' j'
    using inv that k unfolding edgesInv_def by (meson less_le_trans)
  have refs: "(\<exists>k' < k. taken (ch' ! k') = Some j \<or> fallThrough (ch' ! k') = Some j)
      = (\<exists>k' < k. taken (ch ! k') = Some j \<or> fallThrough (ch ! k') = Some j)"
    using same by auto
  show ?thesis
  proof (cases "j < length ch")
    case True
    with ext have "blockType (ch' ! j) = blockType (ch ! j)" "j < length ch'"
      unfolding chainExt_def by auto
    with True refs show ?thesis by (simp add: inChainAt_def)
  next
    case False
    then have r: "\<not> inChainAt ch k j" by (simp add: inChainAt_def)
    have "\<not> inChainAt ch' k j"
    proof
      assume a: "inChainAt ch' k j"
      then have jl: "j < length ch'" by (simp add: inChainAt_def)
      with ext False have "isChainingCell (blockType (ch' ! j))" unfolding chainExt_def by auto
      then have "blockType (ch' ! j) \<noteq> DALVIK_BYTECODE" by (auto simp: isChainingCell_def)
      with a have "\<exists>k' < k. taken (ch' ! k') = Some j \<or> fallThrough (ch' ! k') = Some j"
        by (simp add: inChainAt_def)
      with refs obtain k' where "k' < k" "taken (ch ! k') = Some j \<or> fallThrough (ch ! k') = Some j"
        by blast
      from rng [OF this] False show False by simp
    qed
    with r show ?thesis by simp
  qed
qed

lemma inChainAt_bound: "inChainAt ch i j \<Longrightarrow> i < j \<and> j < length ch"
  by (simp add: inChainAt_def)

lemma takenExact_ext:
  assumes ext: "chainExt i ch ch'" and inv: "edgesInv nb i ch" and k: "k < i" and i: "i < length ch"
    and old: "takenExact c ch k"
  shows "takenExact c ch' k"
proof -
  from k i have kl: "k < length ch" "k \<noteq> i" by simp_all
  with ext have same: "ch' ! k = ch ! k" unfolding chainExt_def by blast
  have in_eq: "inChainAt ch' k j = inChainAt ch k j" for j
    using inChainAt_ext [OF ext inv _ i, of k j] k by simp
  have so: "startOffset (ch' ! j) = startOffset (ch ! j)" if "inChainAt ch k j" for j
    using ext inChainAt_bound [OF that] unfolding chainExt_def by blast
  have len: "length ch \<le> length ch'" using ext by (simp add: chainExt_def)
  define t where "t = targetOf c (last (mirInsns (ch ! k)))"
  have M: "(inChainAt ch' k j \<and> startOffset (ch' ! j) = t)
      = (inChainAt ch k j \<and> startOffset (ch ! j) = t)" for j
    using in_eq [of j] so [of j] by auto
  have N: "\<exists>j. taken (ch ! k) = Some j \<and> k < j \<and> j < length ch' \<and> \<not> inChainAt ch' k j"
    if "\<exists>j. taken (ch ! k) = Some j \<and> k < j \<and> j < length ch \<and> \<not> inChainAt ch k j"
    using that len in_eq by auto
  from old have o: "if \<exists>j. inChainAt ch k j \<and> startOffset (ch ! j) = t
         then \<exists>j. taken (ch ! k) = Some j \<and> (inChainAt ch k j \<and> startOffset (ch ! j) = t)
                \<and> (\<forall>j'. inChainAt ch k j' \<and> startOffset (ch ! j') = t \<longrightarrow> j' \<le> j)
         else if t = offset (last (mirInsns (ch ! k))) then taken (ch ! k) = None
         else \<exists>j. taken (ch ! k) = Some j \<and> k < j \<and> j < length ch \<and> \<not> inChainAt ch k j"
    unfolding takenExact_def Let_def t_def .
  have "if \<exists>j. inChainAt ch k j \<and> startOffset (ch ! j) = t
         then \<exists>j. taken (ch ! k) = Some j \<and> (inChainAt ch k j \<and> startOffset (ch ! j) = t)
                \<and> (\<forall>j'. inChainAt ch k j' \<and> startOffset (ch ! j') = t \<longrightarrow> j' \<le> j)
         else if t = offset (last (mirInsns (ch ! k))) then taken (ch ! k) = None
         else \<exists>j. taken (ch ! k) = Some j \<and> k < j \<and> j < length ch' \<and> \<not> inChainAt ch' k j"
  proof (cases "\<exists>j. inChainAt ch k j \<and> startOffset (ch ! j) = t")
    case True
    from o [unfolded if_P [OF True]] show ?thesis unfolding if_P [OF True] .
  next
    case nf: False
    show ?thesis
    proof (cases "t = offset (last (mirInsns (ch ! k)))")
      case True
      from o [unfolded if_not_P [OF nf] if_P [OF True]]
      show ?thesis unfolding if_not_P [OF nf] if_P [OF True] .
    next
      case False
      from N [OF o [unfolded if_not_P [OF nf] if_not_P [OF False]]]
      show ?thesis unfolding if_not_P [OF nf] if_not_P [OF False] .
    qed
  qed
  then show ?thesis
    unfolding takenExact_def Let_def same t_def [symmetric] M .
qed

lemma edgesInv_step:
  assumes ok: "chainOK nb ch n" and i: "i < nb"
    and none: "taken (ch ! i) = None" "fallThrough (ch ! i) = None"
    and inv: "edgesInv nb i ch"
  shows "edgesInv nb (Suc i) (fst (linkBlock gDvm c i (ch, n)))"
proof -
  let ?ch' = "fst (linkBlock gDvm c i (ch, n))"
  from linkBlock_step [OF ok i none, of gDvm c]
  have ext: "chainExt i ch ?ch'" by blast
  from linkBlock_edges [OF ok i none, of gDvm c]
  have A: "\<forall>j. taken (?ch' ! i) = Some j \<or> fallThrough (?ch' ! i) = Some j \<longrightarrow> j < length ?ch'"
    and B: "\<forall>j. length ch \<le> j \<and> j < length ?ch' \<longrightarrow>
              taken (?ch' ! i) = Some j \<or> fallThrough (?ch' ! i) = Some j"
    by blast+
  from ok i have il: "i < length ch" by (simp add: chainOK_def)
  have len: "length ch \<le> length ?ch'" using ext by (simp add: chainExt_def)
  have same: "?ch' ! k = ch ! k" if "k < i" for k
    using ext that il unfolding chainExt_def by auto
  have 1: "j < length ?ch'"
    if "k < Suc i" "taken (?ch' ! k) = Some j \<or> fallThrough (?ch' ! k) = Some j" for k j
  proof (cases "k = i")
    case True
    with that A show ?thesis by blast
  next
    case False
    with that have ki: "k < i" by simp
    with that(2) same have "taken (ch ! k) = Some j \<or> fallThrough (ch ! k) = Some j" by simp
    with inv ki have "j < length ch" unfolding edgesInv_def by blast
    with len show ?thesis by simp
  qed
  have 2: "\<exists>k < Suc i. taken (?ch' ! k) = Some j \<or> fallThrough (?ch' ! k) = Some j"
    if "nb \<le> j" "j < length ?ch'" for j
  proof (cases "j < length ch")
    case True
    with inv that obtain k where "k < i" "taken (ch ! k) = Some j \<or> fallThrough (ch ! k) = Some j"
      unfolding edgesInv_def by blast
    with same [of k] have "k < Suc i \<and> (taken (?ch' ! k) = Some j \<or> fallThrough (?ch' ! k) = Some j)"
      by simp
    then show ?thesis by blast
  next
    case False
    with B that have "taken (?ch' ! i) = Some j \<or> fallThrough (?ch' ! i) = Some j" by simp
    then show ?thesis by blast
  qed
  show ?thesis
    unfolding edgesInv_def using 1 2 by blast
qed

lemma inChainAt_linking:
  assumes ok: "chainOK nb ch n" and i: "i < nb"
    and none: "taken (ch ! i) = None" "fallThrough (ch ! i) = None"
    and inv: "edgesInv nb i ch"
  shows "inChainAt (fst (linkBlock gDvm c i (ch, n))) i j = (i < j \<and> j < length ch)"
proof -
  from linkBlock_step [OF ok i none, of gDvm c]
  have ext: "chainExt i ch (fst (linkBlock gDvm c i (ch, n)))" by blast
  from ok i have il: "i < length ch" by (simp add: chainOK_def)
  show ?thesis
    using inChainAt_ext [OF ext inv _ il, of i j] inChainAt_all [OF ok inv, of j] by simp
qed

lemma takenExact_step:
  assumes ok: "chainOK nb ch n" and i: "i < nb"
    and none: "taken (ch ! i) = None" "fallThrough (ch ! i) = None"
    and inv: "edgesInv nb i ch"
  shows "takenExact c (fst (linkBlock gDvm c i (ch, n))) i"
proof -
  let ?ch' = "fst (linkBlock gDvm c i (ch, n))"
  define t where "t = targetOf c (last (mirInsns (ch ! i)))"
  from linkBlock_step [OF ok i none, of gDvm c]
  have ext: "chainExt i ch ?ch'" by blast
  from ok i have il: "i < length ch" by (simp add: chainOK_def)
  have m: "mirInsns (?ch' ! i) = mirInsns (ch ! i)"
    using ext il unfolding chainExt_def by blast
  note in_eq = inChainAt_linking [OF ok i none inv, of gDvm c]
  have so: "startOffset (?ch' ! j) = startOffset (ch ! j)" if "j < length ch" for j
    using ext that unfolding chainExt_def by blast
  have M: "(inChainAt ?ch' i j \<and> startOffset (?ch' ! j) = t)
      = (i < j \<and> j < length ch \<and> startOffset (ch ! j) = t)" for j
    unfolding in_eq using so [of j] by auto
  from linkBlock_edges [OF ok i none, of gDvm c]
  have rng: "\<forall>j. taken (?ch' ! i) = Some j \<longrightarrow> j < length ?ch'" by blast
  have N: "\<exists>j. taken (?ch' ! i) = Some j \<and> i < j \<and> j < length ?ch' \<and> \<not> inChainAt ?ch' i j"
    if "taken (?ch' ! i) = Some (length ch)"
    using that rng il unfolding in_eq by auto
  note lt = linkBlock_taken [OF ok i none t_def, of gDvm]
  have "if \<exists>j. i < j \<and> j < length ch \<and> startOffset (ch ! j) = t
         then \<exists>j. taken (?ch' ! i) = Some j
                \<and> (i < j \<and> j < length ch \<and> startOffset (ch ! j) = t)
                \<and> (\<forall>j'. i < j' \<and> j' < length ch \<and> startOffset (ch ! j') = t \<longrightarrow> j' \<le> j)
         else if t = offset (last (mirInsns (ch ! i))) then taken (?ch' ! i) = None
         else \<exists>j. taken (?ch' ! i) = Some j \<and> i < j \<and> j < length ?ch' \<and> \<not> inChainAt ?ch' i j"
  proof (cases "\<exists>j. i < j \<and> j < length ch \<and> startOffset (ch ! j) = t")
    case True
    from lt [unfolded if_P [OF True]] show ?thesis unfolding if_P [OF True] by blast
  next
    case nf: False
    show ?thesis
    proof (cases "t = offset (last (mirInsns (ch ! i)))")
      case True
      from lt [unfolded if_not_P [OF nf] if_P [OF True]]
      show ?thesis unfolding if_not_P [OF nf] if_P [OF True] .
    next
      case False
      from N [OF lt [unfolded if_not_P [OF nf] if_not_P [OF False]]]
      show ?thesis unfolding if_not_P [OF nf] if_not_P [OF False] .
    qed
  qed
  then show ?thesis
    unfolding takenExact_def Let_def m t_def [symmetric] M .
qed

lemma linkBlocks_edges:
  assumes "chainOK nb (fst st) (snd st)" "i \<le> nb"
    and "\<forall>k. i \<le> k \<and> k < nb \<longrightarrow> taken (fst st ! k) = None \<and> fallThrough (fst st ! k) = None"
    and "edgesInv nb i (fst st)"
    and "\<forall>k < i. takenExact c (fst st) k"
  shows "edgesInv nb nb (fst (linkBlocks gDvm c i st))
     \<and> (\<forall>k < nb. takenExact c (fst (linkBlocks gDvm c i st)) k)"
  using assms
proof (induction gDvm c i st rule: linkBlocks.induct)
  case (1 gDvm c i st)
  obtain ch n where st: "st = (ch, n)" by (cases st)
  from "1.prems"(1) have ok: "chainOK nb ch n" by (simp add: st)
  from "1.prems"(4) have inv: "edgesInv nb i ch" by (simp add: st)
  show ?case
  proof (cases "i < length ch \<and> mirInsns (ch ! i) \<noteq> []")
    case True
    then have il: "i < length ch" and ne: "mirInsns (ch ! i) \<noteq> []" by simp_all
    have inb: "i < nb"
    proof (rule ccontr)
      assume "\<not> i < nb"
      with ok il have "mirInsns (ch ! i) = []" unfolding chainOK_def by auto
      with ne show False by simp
    qed
    let ?st' = "linkBlock gDvm c i st"
    have eq: "linkBlocks gDvm c i st = linkBlocks gDvm c (Suc i) ?st'"
      using il ne by (subst linkBlocks.simps) (simp add: st)
    from "1.prems"(3) inb have none: "taken (ch ! i) = None" "fallThrough (ch ! i) = None"
      by (simp_all add: st)
    from linkBlock_step [OF ok inb none, of gDvm c]
    have ext: "chainExt i ch (fst ?st')" and n': "snd ?st' = int (length (fst ?st'))"
      by (simp_all add: st)
    have ok': "chainOK nb (fst ?st') (snd ?st')"
      using chainOK_ext [OF ok ext n'] .
    have same: "fst ?st' ! k = ch ! k" if "k < length ch" "k \<noteq> i" for k
      using ext that unfolding chainExt_def by blast
    have nbl: "nb \<le> length ch" using ok by (simp add: chainOK_def)
    have inv': "edgesInv nb (Suc i) (fst ?st')"
      using edgesInv_step [OF ok inb none inv, of gDvm c] by (simp add: st)
    have done': "\<forall>k < Suc i. takenExact c (fst ?st') k"
    proof (intro allI impI)
      fix k assume k: "k < Suc i"
      show "takenExact c (fst ?st') k"
      proof (cases "k = i")
        case True
        with takenExact_step [OF ok inb none inv, of c gDvm] show ?thesis by (simp add: st)
      next
        case False
        with k have ki: "k < i" by simp
        from "1.prems"(5) ki have old: "takenExact c ch k" by (simp add: st)
        from takenExact_ext [OF ext inv ki il old] show ?thesis .
      qed
    qed
    have todo': "\<forall>k. Suc i \<le> k \<and> k < nb \<longrightarrow>
        taken (fst ?st' ! k) = None \<and> fallThrough (fst ?st' ! k) = None"
    proof (intro allI impI)
      fix k assume k: "Suc i \<le> k \<and> k < nb"
      then have "k < length ch" "k \<noteq> i" using nbl by simp_all
      from same [OF this] "1.prems"(3) k show
        "taken (fst ?st' ! k) = None \<and> fallThrough (fst ?st' ! k) = None"
        by (simp add: st)
    qed
    have cond: "i < length (fst st)" "mirInsns (fst st ! i) \<noteq> []"
      using il ne by (simp_all add: st)
    from "1.IH" [OF cond ok' _ todo' inv' done'] inb
    show ?thesis unfolding eq by simp
  next
    case False
    have eq: "linkBlocks gDvm c i st = st"
      using False by (subst linkBlocks.simps) (auto simp: st)
    have "i = nb"
    proof (rule ccontr)
      assume "i \<noteq> nb"
      with "1.prems"(2) have "i < nb" by simp
      with ok have "i < length ch" "mirInsns (ch ! i) \<noteq> []" unfolding chainOK_def by auto
      with False show False by simp
    qed
    with "1.prems"(4,5) show ?thesis unfolding eq by simp
  qed
qed

lemma linkedChain_found:
  "edgesInv (codeBlocks gDvm desc n) (codeBlocks gDvm desc n) (linkedChain gDvm desc n)
   \<and> (\<forall>k < codeBlocks gDvm desc n. takenExact (method' desc) (linkedChain gDvm desc n) k)"
proof -
  let ?s = "scanTrace gDvm desc n (scanStart desc)"
  let ?st = "(chain ?s, numBlocksT ?s)"
  have d: "scanDone ?s" using scanTrace_inv [OF scanStart_inv] .
  note c = scanDone_chainOK [OF d]
  have 1: "chainOK (length (chain ?s)) (fst ?st) (snd ?st)" using c(1) by simp
  have 3: "\<forall>k. 0 \<le> k \<and> k < length (chain ?s) \<longrightarrow>
      taken (fst ?st ! k) = None \<and> fallThrough (fst ?st ! k) = None"
    using c(2) by simp
  have 4: "edgesInv (length (chain ?s)) 0 (fst ?st)" by (simp add: edgesInv_def)
  have 5: "\<forall>k < 0. takenExact (method' desc) (fst ?st) k" by simp
  from linkBlocks_edges [OF 1 _ 3 4 5, of gDvm]
  show ?thesis
    by (simp add: linkedChain_def codeBlocks_def Let_def)
qed

lemma inChainAt_trailer:
  assumes inv: "edgesInv nb nb ch" and i: "i < nb" and nbl: "nb \<le> length ch"
    and pc: "blockType pc \<noteq> DALVIK_BYTECODE" and eh: "blockType eh \<noteq> DALVIK_BYTECODE"
  shows "inChainAt (ch @ [pc, eh]) i j = inChainAt ch i j"
proof -
  have same: "(ch @ [pc, eh]) ! k = ch ! k" if "k < i" for k
    using that i nbl by (simp add: nth_append)
  have refs: "(\<exists>k < i. taken ((ch @ [pc, eh]) ! k) = Some j \<or> fallThrough ((ch @ [pc, eh]) ! k) = Some j)
      = (\<exists>k < i. taken (ch ! k) = Some j \<or> fallThrough (ch ! k) = Some j)"
    using same by auto
  have rng: "j < length ch"
    if "\<exists>k < i. taken (ch ! k) = Some j \<or> fallThrough (ch ! k) = Some j"
    using inv that i unfolding edgesInv_def by (meson less_trans)
  show ?thesis
  proof (cases "j < length ch")
    case True
    with refs show ?thesis by (simp add: inChainAt_def nth_append)
  next
    case False
    then have r: "\<not> inChainAt ch i j" by (simp add: inChainAt_def)
    have "\<not> inChainAt (ch @ [pc, eh]) i j"
    proof
      assume a: "inChainAt (ch @ [pc, eh]) i j"
      then have "j < length ch + 2" by (simp add: inChainAt_def)
      with False have "j = length ch \<or> j = Suc (length ch)" by auto
      then have "blockType ((ch @ [pc, eh]) ! j) \<noteq> DALVIK_BYTECODE"
        using pc eh by (auto simp: nth_append)
      with a refs have "\<exists>k < i. taken (ch ! k) = Some j \<or> fallThrough (ch ! k) = Some j"
        by (simp add: inChainAt_def)
      from rng [OF this] False show False by simp
    qed
    with r show ?thesis by simp
  qed
qed

text \<open>
  The edge loop is its iterations one after the other, and what \<open>inChainAt\<close> picks
  for block \<open>i\<close> in the chain after the loop is what follows block \<open>i\<close> in the chain
  after the first \<open>i\<close> iterations.
\<close>

lemma linkedUpTo_Suc:
  "linkedUpTo gDvm c (Suc i) st = linkBlock gDvm c i (linkedUpTo gDvm c i st)"
  by (simp add: linkedUpTo_def)

lemma linkedUpTo_inv:
  assumes ok: "chainOK nb (fst st) (snd st)"
    and none: "\<forall>k < nb. taken (fst st ! k) = None \<and> fallThrough (fst st ! k) = None"
    and inv: "edgesInv nb 0 (fst st)"
    and i: "i \<le> nb"
  shows "chainOK nb (fst (linkedUpTo gDvm c i st)) (snd (linkedUpTo gDvm c i st))
     \<and> (\<forall>k. i \<le> k \<and> k < nb \<longrightarrow>
           taken (fst (linkedUpTo gDvm c i st) ! k) = None
           \<and> fallThrough (fst (linkedUpTo gDvm c i st) ! k) = None)
     \<and> edgesInv nb i (fst (linkedUpTo gDvm c i st))
     \<and> linkBlocks gDvm c 0 st = linkBlocks gDvm c i (linkedUpTo gDvm c i st)"
  using i
proof (induction i)
  case 0
  with ok none inv show ?case by (simp add: linkedUpTo_def)
next
  case (Suc i)
  let ?s = "linkedUpTo gDvm c i st"
  obtain ch n where s: "?s = (ch, n)" by (cases ?s)
  from Suc have inb: "i < nb" by simp
  from Suc.IH inb have ok': "chainOK nb ch n"
    and none': "\<forall>k. i \<le> k \<and> k < nb \<longrightarrow> taken (ch ! k) = None \<and> fallThrough (ch ! k) = None"
    and inv': "edgesInv nb i ch"
    and lk: "linkBlocks gDvm c 0 st = linkBlocks gDvm c i (ch, n)"
    by (simp_all add: s)
  from none' inb have ni: "taken (ch ! i) = None" "fallThrough (ch ! i) = None" by simp_all
  from ok' inb have il: "i < length ch" and ne: "mirInsns (ch ! i) \<noteq> []" and nbl: "nb \<le> length ch"
    unfolding chainOK_def by auto
  let ?st' = "linkBlock gDvm c i (ch, n)"
  have up: "linkedUpTo gDvm c (Suc i) st = ?st'" by (simp add: linkedUpTo_Suc s)
  from linkBlock_step [OF ok' inb ni, of gDvm c]
  have ext: "chainExt i ch (fst ?st')" and n': "snd ?st' = int (length (fst ?st'))"
    by simp_all
  have 1: "chainOK nb (fst ?st') (snd ?st')" using chainOK_ext [OF ok' ext n'] .
  have same: "fst ?st' ! k = ch ! k" if "k < length ch" "k \<noteq> i" for k
    using ext that unfolding chainExt_def by blast
  have 2: "\<forall>k. Suc i \<le> k \<and> k < nb \<longrightarrow>
        taken (fst ?st' ! k) = None \<and> fallThrough (fst ?st' ! k) = None"
  proof (intro allI impI)
    fix k assume k: "Suc i \<le> k \<and> k < nb"
    then have "k < length ch" "k \<noteq> i" using nbl by simp_all
    from same [OF this] none' k show
      "taken (fst ?st' ! k) = None \<and> fallThrough (fst ?st' ! k) = None"
      by simp
  qed
  have 3: "edgesInv nb (Suc i) (fst ?st')" using edgesInv_step [OF ok' inb ni inv', of gDvm c] .
  have 4: "linkBlocks gDvm c i (ch, n) = linkBlocks gDvm c (Suc i) ?st'"
    using il ne by (subst linkBlocks.simps) simp
  from 1 2 3 4 lk show ?case unfolding up by simp
qed

lemma linkBlocks_stop:
  assumes "chainOK nb (fst st) (snd st)"
  shows "linkBlocks gDvm c nb st = st"
proof -
  have "\<not> (nb < length (fst st) \<and> mirInsns (fst st ! nb) \<noteq> [])"
    using assms unfolding chainOK_def by auto
  then show ?thesis by (subst linkBlocks.simps) auto
qed

lemma inChainAt_upTo:
  assumes ok: "chainOK nb (fst st) (snd st)"
    and none: "\<forall>k < nb. taken (fst st ! k) = None \<and> fallThrough (fst st ! k) = None"
    and inv: "edgesInv nb 0 (fst st)"
    and i: "i < k" and k: "k \<le> nb"
  shows "inChainAt (fst (linkedUpTo gDvm c k st)) i j
     = (i < j \<and> j < length (fst (linkedUpTo gDvm c i st)))"
  using i k
proof (induction k)
  case 0
  then show ?case by simp
next
  case (Suc k)
  let ?s = "linkedUpTo gDvm c k st"
  obtain ch n where s: "?s = (ch, n)" by (cases ?s)
  from Suc.prems have knb: "k < nb" "k \<le> nb" by simp_all
  from linkedUpTo_inv [OF ok none inv knb(2), of gDvm c]
  have ok': "chainOK nb ch n"
    and none': "\<forall>m. k \<le> m \<and> m < nb \<longrightarrow> taken (ch ! m) = None \<and> fallThrough (ch ! m) = None"
    and inv': "edgesInv nb k ch"
    by (simp_all add: s)
  from none' knb have nk: "taken (ch ! k) = None" "fallThrough (ch ! k) = None" by simp_all
  from ok' knb have kl: "k < length ch" unfolding chainOK_def by auto
  have up: "linkedUpTo gDvm c (Suc k) st = linkBlock gDvm c k (ch, n)"
    by (simp add: linkedUpTo_Suc s)
  show ?case
  proof (cases "i = k")
    case True
    from inChainAt_linking [OF ok' knb(1) nk inv', of gDvm c j]
    show ?thesis unfolding up True s by simp
  next
    case False
    with Suc.prems have ik: "i < k" by simp
    from linkBlock_step [OF ok' knb(1) nk, of gDvm c]
    have ext: "chainExt k ch (fst (linkBlock gDvm c k (ch, n)))" by blast
    from inChainAt_ext [OF ext inv' _ kl, of i j] ik
    have "inChainAt (fst (linkBlock gDvm c k (ch, n))) i j = inChainAt ch i j" by simp
    also have "\<dots> = (i < j \<and> j < length (fst (linkedUpTo gDvm c i st)))"
      using Suc.IH [OF ik knb(2)] by (simp add: s)
    finally show ?thesis unfolding up .
  qed
qed

lemma inChainAt_linkBlocks:
  assumes ok: "chainOK nb (fst st) (snd st)"
    and none: "\<forall>k < nb. taken (fst st ! k) = None \<and> fallThrough (fst st ! k) = None"
    and inv: "edgesInv nb 0 (fst st)"
    and i: "i < nb"
  shows "inChainAt (fst (linkBlocks gDvm c 0 st)) i j
     = (i < j \<and> j < length (fst (linkedUpTo gDvm c i st)))"
proof -
  from linkedUpTo_inv [OF ok none inv order_refl, of gDvm c]
  have "chainOK nb (fst (linkedUpTo gDvm c nb st)) (snd (linkedUpTo gDvm c nb st))"
    and "linkBlocks gDvm c 0 st = linkBlocks gDvm c nb (linkedUpTo gDvm c nb st)"
    by blast+
  with linkBlocks_stop [of nb "linkedUpTo gDvm c nb st" gDvm c]
  have "linkBlocks gDvm c 0 st = linkedUpTo gDvm c nb st" by simp
  with inChainAt_upTo [OF ok none inv i order_refl, of gDvm c j] show ?thesis by simp
qed

lemma inChainAt_linkedChain:
  assumes "i < codeBlocks gDvm desc n"
  shows "inChainAt (linkedChain gDvm desc n) i j = (i < j \<and> j < length (chainAt gDvm desc n i))"
proof -
  let ?s = "scanTrace gDvm desc n (scanStart desc)"
  let ?st = "(chain ?s, numBlocksT ?s)"
  have d: "scanDone ?s" using scanTrace_inv [OF scanStart_inv] .
  note c = scanDone_chainOK [OF d]
  have 1: "chainOK (length (chain ?s)) (fst ?st) (snd ?st)" using c(1) by simp
  have 2: "\<forall>k < length (chain ?s). taken (fst ?st ! k) = None \<and> fallThrough (fst ?st ! k) = None"
    using c(2) by simp
  have 3: "edgesInv (length (chain ?s)) 0 (fst ?st)" by (simp add: edgesInv_def)
  have 4: "i < length (chain ?s)" using assms by (simp add: codeBlocks_def)
  from inChainAt_linkBlocks [OF 1 2 3 4, of gDvm "method' desc" j]
  show ?thesis by (simp add: linkedChain_def chainAt_def Let_def)
qed

subsection \<open>The trace builder: the built graph\<close>

lemma chainOK_ids:
  assumes "chainOK nb ch n"
  shows "map id' ch = map int [0..<length ch]"
  using assms by (auto simp: chainOK_def intro!: nth_equalityI)

lemma chainOK_types:
  assumes "chainOK nb ch n"
  shows "list_all (\<lambda>b. blockType b = DALVIK_BYTECODE \<or> isChainingCell (blockType b)) ch"
  unfolding list_all_length using chainOK_type [OF assms] by blast

lemma attempt_bytecode_index:
  assumes ok: "chainOK nb ch n"
    and i: "i < length (ch @ [pc, eh])"
    and t: "blockType ((ch @ [pc, eh]) ! i) = DALVIK_BYTECODE"
    and pc: "blockType pc = PC_RECONSTRUCTION" and eh: "blockType eh = EXCEPTION_HANDLING"
  shows "i < nb"
proof (rule ccontr)
  assume n: "\<not> i < nb"
  show False
  proof (cases "i < length ch")
    case True
    with ok n have "isChainingCell (blockType (ch ! i))" unfolding chainOK_def by auto
    with t True show False by (simp add: nth_append isChainingCell_def)
  next
    case False
    with i have "i = length ch \<or> i = Suc (length ch)" by auto
    with t pc eh show False by (auto simp: nth_append)
  qed
qed

text \<open>
  C6. Every attempt returns a compilation unit whose block list is the bytecode blocks
  and chaining cells followed by exactly two more blocks, a PC-reconstruction block and
  then an exception-handling block; the two hold no instructions and have no edges.
\<close>

theorem traceAttempt_trailer:
  "\<exists>cu bs pc eh. traceAttempt gDvm gDvmJit desc numMaxInsts = Inr cu
      \<and> blockList cu = bs @ [pc, eh]
      \<and> list_all (\<lambda>b. blockType b = DALVIK_BYTECODE \<or> isChainingCell (blockType b)) bs
      \<and> blockType pc = PC_RECONSTRUCTION \<and> blockType eh = EXCEPTION_HANDLING
      \<and> mirInsns pc = [] \<and> mirInsns eh = []
      \<and> taken pc = None \<and> fallThrough pc = None \<and> taken eh = None \<and> fallThrough eh = None"
proof -
  let ?ch = "linkedChain gDvm desc numMaxInsts"
  from linkedChain_ok [of gDvm desc numMaxInsts]
  have "chainOK (codeBlocks gDvm desc numMaxInsts) ?ch (int (length ?ch))" by blast
  from chainOK_types [OF this] show ?thesis
    unfolding traceAttempt_eq by (simp add: dvmCompilerNewBB_def)
qed

theorem traceAttempt_trailer_witness:
  "\<exists>cu bs pc eh. traceAttempt exampleDvm exampleJit branchTrace 100 = Inr cu
      \<and> blockList cu = bs @ [pc, eh] \<and> length bs = 3
      \<and> blockType pc = PC_RECONSTRUCTION \<and> blockType eh = EXCEPTION_HANDLING"
proof -
  from traceAttempt_trailer [of exampleDvm exampleJit branchTrace 100]
  obtain cu bs pc eh where r: "traceAttempt exampleDvm exampleJit branchTrace 100 = Inr cu"
    "blockList cu = bs @ [pc, eh]" "blockType pc = PC_RECONSTRUCTION"
    "blockType eh = EXCEPTION_HANDLING"
    by blast
  have "length (blockList (projr (traceAttempt exampleDvm exampleJit branchTrace 100))) = 5"
    by code_simp
  with r have "length bs = 3" by simp
  with r show ?thesis by blast
qed

text \<open>
  C10. Every attempt returns a compilation unit (neither the walk that fills the block
  array nor the assertion after it fails), the recorded block count is the length of the
  block list, and the block at position i has identity i: the identities are
  0, 1, ..., numBlocks - 1 in chain order, which is the order of creation.
\<close>

theorem traceAttempt_block_ids:
  "\<exists>cu. traceAttempt gDvm gDvmJit desc numMaxInsts = Inr cu
      \<and> numBlocks cu = int (length (blockList cu))
      \<and> map id' (blockList cu) = map int [0..<length (blockList cu)]"
proof -
  let ?ch = "linkedChain gDvm desc numMaxInsts"
  from linkedChain_ok [of gDvm desc numMaxInsts]
  have "chainOK (codeBlocks gDvm desc numMaxInsts) ?ch (int (length ?ch))" by blast
  from chainOK_ids [OF this] show ?thesis
    unfolding traceAttempt_eq by (simp add: dvmCompilerNewBB_def)
qed

text \<open>
  C4. In the block list of every attempt, a bytecode block holds an instruction, and if
  its last instruction is not an unconditional branch (a return or a goto) its
  fall-through edge is set and points to a later block of the list, a bytecode block or
  a chaining cell, that starts at the offset following the last instruction.
\<close>

theorem traceAttempt_fallThrough:
  "\<exists>cu. traceAttempt gDvm gDvmJit desc numMaxInsts = Inr cu
     \<and> (\<forall>i < length (blockList cu).
           blockType (blockList cu ! i) = DALVIK_BYTECODE \<longrightarrow>
           mirInsns (blockList cu ! i) \<noteq> []
           \<and> (\<not> isUnconditionalBranch (last (mirInsns (blockList cu ! i))) \<longrightarrow>
                (\<exists>j. fallThrough (blockList cu ! i) = Some j \<and> i < j \<and> j < length (blockList cu)
                    \<and> (blockType (blockList cu ! j) = DALVIK_BYTECODE
                         \<or> isChainingCell (blockType (blockList cu ! j)))
                    \<and> startOffset (blockList cu ! j)
                        = offset (last (mirInsns (blockList cu ! i)))
                          + word_of_int (width (last (mirInsns (blockList cu ! i)))))))"
proof -
  let ?ch = "linkedChain gDvm desc numMaxInsts"
  let ?nb = "codeBlocks gDvm desc numMaxInsts"
  let ?pc = "(dvmCompilerNewBB PC_RECONSTRUCTION)\<lparr>id' := int (length ?ch)\<rparr>"
  let ?eh = "(dvmCompilerNewBB EXCEPTION_HANDLING)\<lparr>id' := int (length ?ch) + 1\<rparr>"
  let ?bl = "?ch @ [?pc, ?eh]"
  from linkedChain_ok [of gDvm desc numMaxInsts]
  have ok: "chainOK ?nb ?ch (int (length ?ch))"
    and edges: "\<forall>k < ?nb. fallThroughOK ?ch k"
    by blast+
  have nbl: "?nb \<le> length ?ch" using ok by (simp add: chainOK_def)
  have main: "mirInsns (?bl ! i) \<noteq> []
           \<and> (\<not> isUnconditionalBranch (last (mirInsns (?bl ! i))) \<longrightarrow>
                (\<exists>j. fallThrough (?bl ! i) = Some j \<and> i < j \<and> j < length ?bl
                    \<and> (blockType (?bl ! j) = DALVIK_BYTECODE \<or> isChainingCell (blockType (?bl ! j)))
                    \<and> startOffset (?bl ! j)
                        = offset (last (mirInsns (?bl ! i)))
                          + word_of_int (width (last (mirInsns (?bl ! i))))))"
    if i: "i < length ?bl" and t: "blockType (?bl ! i) = DALVIK_BYTECODE" for i
  proof -
    have inb: "i < ?nb"
      using attempt_bytecode_index [OF ok i t] by (simp add: dvmCompilerNewBB_def)
    then have il: "i < length ?ch" using nbl by simp
    then have bi: "?bl ! i = ?ch ! i" by (simp add: nth_append)
    from ok inb il have ne: "mirInsns (?ch ! i) \<noteq> []" unfolding chainOK_def by auto
    from edges inb have f: "fallThroughOK ?ch i" by blast
    have "\<exists>j. fallThrough (?ch ! i) = Some j \<and> i < j \<and> j < length ?bl
                    \<and> (blockType (?bl ! j) = DALVIK_BYTECODE \<or> isChainingCell (blockType (?bl ! j)))
                    \<and> startOffset (?bl ! j)
                        = offset (last (mirInsns (?ch ! i)))
                          + word_of_int (width (last (mirInsns (?ch ! i))))"
      if u: "\<not> isUnconditionalBranch (last (mirInsns (?ch ! i)))"
    proof -
      from f u obtain j where j: "fallThrough (?ch ! i) = Some j" "i < j" "j < length ?ch"
        "blockType (?ch ! j) = DALVIK_BYTECODE \<or> isChainingCell (blockType (?ch ! j))"
        "startOffset (?ch ! j) = offset (last (mirInsns (?ch ! i)))
            + word_of_int (width (last (mirInsns (?ch ! i))))"
        unfolding fallThroughOK_def Let_def by blast
      from j(3) have "?bl ! j = ?ch ! j" "j < length ?bl" by (simp_all add: nth_append)
      with j show ?thesis by auto
    qed
    with ne show ?thesis unfolding bi by blast
  qed
  show ?thesis
    unfolding traceAttempt_eq using main by simp
qed

theorem traceAttempt_fallThrough_witness:
  "\<exists>cu. traceAttempt exampleDvm exampleJit branchTrace 100 = Inr cu
     \<and> 0 < length (blockList cu) \<and> blockType (blockList cu ! 0) = DALVIK_BYTECODE
     \<and> \<not> isUnconditionalBranch (last (mirInsns (blockList cu ! 0)))
     \<and> (\<exists>j. fallThrough (blockList cu ! 0) = Some j \<and> 0 < j \<and> j < length (blockList cu)
            \<and> startOffset (blockList cu ! j) = 2)"
proof -
  from traceAttempt_fallThrough [of exampleDvm exampleJit branchTrace 100]
  obtain cu where cu: "traceAttempt exampleDvm exampleJit branchTrace 100 = Inr cu"
    and all: "\<forall>i < length (blockList cu).
           blockType (blockList cu ! i) = DALVIK_BYTECODE \<longrightarrow>
           mirInsns (blockList cu ! i) \<noteq> []
           \<and> (\<not> isUnconditionalBranch (last (mirInsns (blockList cu ! i))) \<longrightarrow>
                (\<exists>j. fallThrough (blockList cu ! i) = Some j \<and> i < j \<and> j < length (blockList cu)
                    \<and> (blockType (blockList cu ! j) = DALVIK_BYTECODE
                         \<or> isChainingCell (blockType (blockList cu ! j)))
                    \<and> startOffset (blockList cu ! j)
                        = offset (last (mirInsns (blockList cu ! i)))
                          + word_of_int (width (last (mirInsns (blockList cu ! i))))))"
    by blast
  let ?cu = "projr (traceAttempt exampleDvm exampleJit branchTrace 100)"
  have e: "cu = ?cu" using cu by simp
  have h: "0 < length (blockList ?cu)" "blockType (blockList ?cu ! 0) = DALVIK_BYTECODE"
    "\<not> isUnconditionalBranch (last (mirInsns (blockList ?cu ! 0)))"
    "offset (last (mirInsns (blockList ?cu ! 0)))
       + word_of_int (width (last (mirInsns (blockList ?cu ! 0)))) = 2"
    by code_simp+
  from all h show ?thesis
    unfolding e [symmetric] using cu by force
qed

text \<open>
  C2. As stated the claim fails (the counterexample follows the witness): the classifier
  leaves the target of a virtual or interface invoke, and of every opcode it does not
  list, at the instruction's own offset, and the builder makes a taken cell only for a
  target that differs from it. Amended: in the block list of every attempt, for every
  bytecode block, with the target offset which the classifier yields for the block's last
  instruction, and calling blocks behind it the later blocks that are bytecode blocks or
  that the taken or fall-through edge of an earlier block points to (\<open>inChainAt\<close>):

  \<^item> if the target offset differs from the instruction's own offset, the taken edge is
    set and points to a later block of the list, a bytecode block or a chaining cell,
    which starts at the target offset or is an invoke chaining cell (start offset 0);

  \<^item> if one of the blocks behind it starts at the target offset, the taken edge points to
    the last of them that does; if none does, the taken edge is absent when the target
    offset is the instruction's own offset, and points to a later block of the list that
    is not one of the blocks behind it when the target offset differs from it;

  \<^item> the blocks behind it are the blocks that follow the block in the chain at the
    moment the edge loop reaches it.
\<close>

theorem traceAttempt_taken:
  "\<exists>cu. traceAttempt gDvm gDvmJit desc numMaxInsts = Inr cu
     \<and> (\<forall>i < length (blockList cu).
           blockType (blockList cu ! i) = DALVIK_BYTECODE \<longrightarrow>
           mirInsns (blockList cu ! i) \<noteq> []
           \<and> (let lastInsn = last (mirInsns (blockList cu ! i));
                  targetOffset = fst (snd (findBlockBoundary (method' desc) lastInsn
                                   (offset lastInsn) (offset lastInsn, False, None)))
              in (targetOffset \<noteq> offset lastInsn \<longrightarrow>
                   (\<exists>j. taken (blockList cu ! i) = Some j \<and> i < j \<and> j < length (blockList cu)
                      \<and> (blockType (blockList cu ! j) = DALVIK_BYTECODE
                           \<or> isChainingCell (blockType (blockList cu ! j)))
                      \<and> (startOffset (blockList cu ! j) = targetOffset
                           \<or> blockType (blockList cu ! j) = CHAINING_CELL_INVOKE
                             \<and> startOffset (blockList cu ! j) = 0)))
               \<and> (if \<exists>j. inChainAt (blockList cu) i j
                           \<and> startOffset (blockList cu ! j) = targetOffset
                   then \<exists>j. taken (blockList cu ! i) = Some j
                          \<and> (inChainAt (blockList cu) i j
                               \<and> startOffset (blockList cu ! j) = targetOffset)
                          \<and> (\<forall>j'. inChainAt (blockList cu) i j'
                                    \<and> startOffset (blockList cu ! j') = targetOffset
                                  \<longrightarrow> j' \<le> j)
                   else if targetOffset = offset lastInsn then taken (blockList cu ! i) = None
                   else \<exists>j. taken (blockList cu ! i) = Some j \<and> i < j
                          \<and> j < length (blockList cu) \<and> \<not> inChainAt (blockList cu) i j)
               \<and> (\<forall>j. inChainAt (blockList cu) i j
                        = (i < j \<and> j < length (chainAt gDvm desc numMaxInsts i)))))"
proof -
  let ?ch = "linkedChain gDvm desc numMaxInsts"
  let ?nb = "codeBlocks gDvm desc numMaxInsts"
  let ?pc = "(dvmCompilerNewBB PC_RECONSTRUCTION)\<lparr>id' := int (length ?ch)\<rparr>"
  let ?eh = "(dvmCompilerNewBB EXCEPTION_HANDLING)\<lparr>id' := int (length ?ch) + 1\<rparr>"
  let ?bl = "?ch @ [?pc, ?eh]"
  from linkedChain_ok [of gDvm desc numMaxInsts]
  have ok: "chainOK ?nb ?ch (int (length ?ch))"
    and edges: "\<forall>k < ?nb. takenOK (method' desc) ?ch k"
    by blast+
  from linkedChain_found [of gDvm desc numMaxInsts]
  have inv: "edgesInv ?nb ?nb ?ch"
    and found: "\<forall>k < ?nb. takenExact (method' desc) ?ch k"
    by blast+
  have nbl: "?nb \<le> length ?ch" using ok by (simp add: chainOK_def)
  have main: "mirInsns (?bl ! i) \<noteq> []
           \<and> (let lastInsn = last (mirInsns (?bl ! i));
                  targetOffset = fst (snd (findBlockBoundary (method' desc) lastInsn
                                   (offset lastInsn) (offset lastInsn, False, None)))
              in (targetOffset \<noteq> offset lastInsn \<longrightarrow>
                   (\<exists>j. taken (?bl ! i) = Some j \<and> i < j \<and> j < length ?bl
                      \<and> (blockType (?bl ! j) = DALVIK_BYTECODE \<or> isChainingCell (blockType (?bl ! j)))
                      \<and> (startOffset (?bl ! j) = targetOffset
                           \<or> blockType (?bl ! j) = CHAINING_CELL_INVOKE \<and> startOffset (?bl ! j) = 0)))
               \<and> (if \<exists>j. inChainAt ?bl i j \<and> startOffset (?bl ! j) = targetOffset
                   then \<exists>j. taken (?bl ! i) = Some j
                          \<and> (inChainAt ?bl i j \<and> startOffset (?bl ! j) = targetOffset)
                          \<and> (\<forall>j'. inChainAt ?bl i j' \<and> startOffset (?bl ! j') = targetOffset
                                  \<longrightarrow> j' \<le> j)
                   else if targetOffset = offset lastInsn then taken (?bl ! i) = None
                   else \<exists>j. taken (?bl ! i) = Some j \<and> i < j
                          \<and> j < length ?bl \<and> \<not> inChainAt ?bl i j)
               \<and> (\<forall>j. inChainAt ?bl i j
                        = (i < j \<and> j < length (chainAt gDvm desc numMaxInsts i))))"
    if i: "i < length ?bl" and t: "blockType (?bl ! i) = DALVIK_BYTECODE" for i
  proof -
    have inb: "i < ?nb"
      using attempt_bytecode_index [OF ok i t] by (simp add: dvmCompilerNewBB_def)
    then have il: "i < length ?ch" using nbl by simp
    then have bi: "?bl ! i = ?ch ! i" by (simp add: nth_append)
    from ok inb il have ne: "mirInsns (?ch ! i) \<noteq> []" unfolding chainOK_def by auto
    from edges inb have f: "takenOK (method' desc) ?ch i" by blast
    from found inb have g: "takenExact (method' desc) ?ch i" by blast
    let ?L = "last (mirInsns (?ch ! i))"
    let ?t = "fst (snd (findBlockBoundary (method' desc) ?L (offset ?L) (offset ?L, False, None)))"
    have in_eq: "inChainAt ?bl i j = inChainAt ?ch i j" for j
      by (rule inChainAt_trailer [OF inv inb nbl]) (simp_all add: dvmCompilerNewBB_def)
    have so: "startOffset (?bl ! j) = startOffset (?ch ! j)" if "inChainAt ?ch i j" for j
      using inChainAt_bound [OF that] by (simp add: nth_append)
    have a: "\<exists>j. taken (?ch ! i) = Some j \<and> i < j \<and> j < length ?bl
                    \<and> (blockType (?bl ! j) = DALVIK_BYTECODE \<or> isChainingCell (blockType (?bl ! j)))
                    \<and> (startOffset (?bl ! j) = ?t
                         \<or> blockType (?bl ! j) = CHAINING_CELL_INVOKE \<and> startOffset (?bl ! j) = 0)"
      if u: "?t \<noteq> offset ?L"
    proof -
      from f u obtain j where j: "taken (?ch ! i) = Some j" "i < j" "j < length ?ch"
        "blockType (?ch ! j) = DALVIK_BYTECODE \<or> isChainingCell (blockType (?ch ! j))"
        "startOffset (?ch ! j) = ?t
           \<or> blockType (?ch ! j) = CHAINING_CELL_INVOKE \<and> startOffset (?ch ! j) = 0"
        unfolding takenOK_def targetOf_def Let_def by blast
      from j(3) have "?bl ! j = ?ch ! j" "j < length ?bl" by (simp_all add: nth_append)
      with j show ?thesis by auto
    qed
    have M: "(inChainAt ?bl i j \<and> startOffset (?bl ! j) = ?t)
        = (inChainAt ?ch i j \<and> startOffset (?ch ! j) = ?t)" for j
      using in_eq [of j] so [of j] by auto
    have N: "\<exists>j. taken (?ch ! i) = Some j \<and> i < j \<and> j < length ?bl \<and> \<not> inChainAt ?bl i j"
      if "\<exists>j. taken (?ch ! i) = Some j \<and> i < j \<and> j < length ?ch \<and> \<not> inChainAt ?ch i j"
      using that in_eq by auto
    from g have o: "if \<exists>j. inChainAt ?ch i j \<and> startOffset (?ch ! j) = ?t
         then \<exists>j. taken (?ch ! i) = Some j \<and> (inChainAt ?ch i j \<and> startOffset (?ch ! j) = ?t)
                \<and> (\<forall>j'. inChainAt ?ch i j' \<and> startOffset (?ch ! j') = ?t \<longrightarrow> j' \<le> j)
         else if ?t = offset ?L then taken (?ch ! i) = None
         else \<exists>j. taken (?ch ! i) = Some j \<and> i < j \<and> j < length ?ch \<and> \<not> inChainAt ?ch i j"
      unfolding takenExact_def targetOf_def Let_def .
    have b0: "if \<exists>j. inChainAt ?ch i j \<and> startOffset (?ch ! j) = ?t
         then \<exists>j. taken (?ch ! i) = Some j \<and> (inChainAt ?ch i j \<and> startOffset (?ch ! j) = ?t)
                \<and> (\<forall>j'. inChainAt ?ch i j' \<and> startOffset (?ch ! j') = ?t \<longrightarrow> j' \<le> j)
         else if ?t = offset ?L then taken (?ch ! i) = None
         else \<exists>j. taken (?ch ! i) = Some j \<and> i < j \<and> j < length ?bl \<and> \<not> inChainAt ?bl i j"
    proof (cases "\<exists>j. inChainAt ?ch i j \<and> startOffset (?ch ! j) = ?t")
      case True
      from o [unfolded if_P [OF True]] show ?thesis unfolding if_P [OF True] .
    next
      case nf: False
      show ?thesis
      proof (cases "?t = offset ?L")
        case True
        from o [unfolded if_not_P [OF nf] if_P [OF True]]
        show ?thesis unfolding if_not_P [OF nf] if_P [OF True] .
      next
        case False
        from N [OF o [unfolded if_not_P [OF nf] if_not_P [OF False]]]
        show ?thesis unfolding if_not_P [OF nf] if_not_P [OF False] .
      qed
    qed
    have b: "if \<exists>j. inChainAt ?bl i j \<and> startOffset (?bl ! j) = ?t
         then \<exists>j. taken (?ch ! i) = Some j \<and> (inChainAt ?bl i j \<and> startOffset (?bl ! j) = ?t)
                \<and> (\<forall>j'. inChainAt ?bl i j' \<and> startOffset (?bl ! j') = ?t \<longrightarrow> j' \<le> j)
         else if ?t = offset ?L then taken (?ch ! i) = None
         else \<exists>j. taken (?ch ! i) = Some j \<and> i < j \<and> j < length ?bl \<and> \<not> inChainAt ?bl i j"
      unfolding M by (rule b0)
    have d: "\<forall>j. inChainAt ?bl i j = (i < j \<and> j < length (chainAt gDvm desc numMaxInsts i))"
      unfolding in_eq using inChainAt_linkedChain [OF inb] by blast
    from ne a b d show ?thesis unfolding bi Let_def by (intro conjI impI) (assumption | blast)+
  qed
  have "\<exists>cu. traceAttempt gDvm gDvmJit desc numMaxInsts = Inr cu \<and> blockList cu = ?bl"
    unfolding traceAttempt_eq by simp
  then obtain cu where cu: "traceAttempt gDvm gDvmJit desc numMaxInsts = Inr cu"
    and bl: "blockList cu = ?bl"
    by blast
  show ?thesis
  proof (rule exI [of _ cu], rule conjI [OF cu], intro allI impI)
    fix i
    assume 1: "i < length (blockList cu)" and 2: "blockType (blockList cu ! i) = DALVIK_BYTECODE"
    have a: "i < length ?bl" using 1 unfolding bl .
    have b: "blockType (?bl ! i) = DALVIK_BYTECODE" using 2 unfolding bl .
    from main [OF a b, folded bl]
    show "mirInsns (blockList cu ! i) \<noteq> []
           \<and> (let lastInsn = last (mirInsns (blockList cu ! i));
                  targetOffset = fst (snd (findBlockBoundary (method' desc) lastInsn
                                   (offset lastInsn) (offset lastInsn, False, None)))
              in (targetOffset \<noteq> offset lastInsn \<longrightarrow>
                   (\<exists>j. taken (blockList cu ! i) = Some j \<and> i < j \<and> j < length (blockList cu)
                      \<and> (blockType (blockList cu ! j) = DALVIK_BYTECODE
                           \<or> isChainingCell (blockType (blockList cu ! j)))
                      \<and> (startOffset (blockList cu ! j) = targetOffset
                           \<or> blockType (blockList cu ! j) = CHAINING_CELL_INVOKE
                             \<and> startOffset (blockList cu ! j) = 0)))
               \<and> (if \<exists>j. inChainAt (blockList cu) i j
                           \<and> startOffset (blockList cu ! j) = targetOffset
                   then \<exists>j. taken (blockList cu ! i) = Some j
                          \<and> (inChainAt (blockList cu) i j
                               \<and> startOffset (blockList cu ! j) = targetOffset)
                          \<and> (\<forall>j'. inChainAt (blockList cu) i j'
                                    \<and> startOffset (blockList cu ! j') = targetOffset
                                  \<longrightarrow> j' \<le> j)
                   else if targetOffset = offset lastInsn then taken (blockList cu ! i) = None
                   else \<exists>j. taken (blockList cu ! i) = Some j \<and> i < j
                          \<and> j < length (blockList cu) \<and> \<not> inChainAt (blockList cu) i j)
               \<and> (\<forall>j. inChainAt (blockList cu) i j
                        = (i < j \<and> j < length (chainAt gDvm desc numMaxInsts i))))" .
  qed
qed

theorem traceAttempt_taken_witness:
  "\<exists>cu. traceAttempt exampleDvm exampleJit sharedCellTrace 100 = Inr cu
     \<and> 1 < length (blockList cu)
     \<and> blockType (blockList cu ! 0) = DALVIK_BYTECODE
     \<and> fst (snd (findBlockBoundary (method' sharedCellTrace) (last (mirInsns (blockList cu ! 0)))
               (offset (last (mirInsns (blockList cu ! 0))))
               (offset (last (mirInsns (blockList cu ! 0))), False, None))) = 5
     \<and> offset (last (mirInsns (blockList cu ! 0))) = 0
     \<and> (\<exists>j. taken (blockList cu ! 0) = Some j \<and> 0 < j \<and> j < length (blockList cu)
            \<and> startOffset (blockList cu ! j) = 5 \<and> \<not> inChainAt (blockList cu) 0 j)
     \<and> blockType (blockList cu ! 1) = DALVIK_BYTECODE
     \<and> opCode (dalvikInsn (last (mirInsns (blockList cu ! 1)))) = OP_INVOKE_VIRTUAL
     \<and> fst (snd (findBlockBoundary (method' sharedCellTrace) (last (mirInsns (blockList cu ! 1)))
               (offset (last (mirInsns (blockList cu ! 1))))
               (offset (last (mirInsns (blockList cu ! 1))), False, None))) = 5
     \<and> offset (last (mirInsns (blockList cu ! 1))) = 5
     \<and> (\<exists>j. taken (blockList cu ! 1) = Some j \<and> inChainAt (blockList cu) 1 j
            \<and> blockType (blockList cu ! j) = CHAINING_CELL_NORMAL
            \<and> startOffset (blockList cu ! j) = 5
            \<and> j < length (chainAt exampleDvm sharedCellTrace 100 1))
     \<and> length (chainAt exampleDvm sharedCellTrace 100 1) = 3"
proof -
  from traceAttempt_taken [of exampleDvm exampleJit sharedCellTrace 100]
  obtain cu where cu: "traceAttempt exampleDvm exampleJit sharedCellTrace 100 = Inr cu"
    and all: "\<forall>i < length (blockList cu).
           blockType (blockList cu ! i) = DALVIK_BYTECODE \<longrightarrow>
           mirInsns (blockList cu ! i) \<noteq> []
           \<and> (let lastInsn = last (mirInsns (blockList cu ! i));
                  targetOffset = fst (snd (findBlockBoundary (method' sharedCellTrace) lastInsn
                                   (offset lastInsn) (offset lastInsn, False, None)))
              in (targetOffset \<noteq> offset lastInsn \<longrightarrow>
                   (\<exists>j. taken (blockList cu ! i) = Some j \<and> i < j \<and> j < length (blockList cu)
                      \<and> (blockType (blockList cu ! j) = DALVIK_BYTECODE
                           \<or> isChainingCell (blockType (blockList cu ! j)))
                      \<and> (startOffset (blockList cu ! j) = targetOffset
                           \<or> blockType (blockList cu ! j) = CHAINING_CELL_INVOKE
                             \<and> startOffset (blockList cu ! j) = 0)))
               \<and> (if \<exists>j. inChainAt (blockList cu) i j
                           \<and> startOffset (blockList cu ! j) = targetOffset
                   then \<exists>j. taken (blockList cu ! i) = Some j
                          \<and> (inChainAt (blockList cu) i j
                               \<and> startOffset (blockList cu ! j) = targetOffset)
                          \<and> (\<forall>j'. inChainAt (blockList cu) i j'
                                    \<and> startOffset (blockList cu ! j') = targetOffset
                                  \<longrightarrow> j' \<le> j)
                   else if targetOffset = offset lastInsn then taken (blockList cu ! i) = None
                   else \<exists>j. taken (blockList cu ! i) = Some j \<and> i < j
                          \<and> j < length (blockList cu) \<and> \<not> inChainAt (blockList cu) i j)
               \<and> (\<forall>j. inChainAt (blockList cu) i j
                        = (i < j \<and> j < length (chainAt exampleDvm sharedCellTrace 100 i))))"
    by blast
  let ?cu = "projr (traceAttempt exampleDvm exampleJit sharedCellTrace 100)"
  have e: "?cu = cu" using cu by simp
  have "map (\<lambda>b. (blockType b, startOffset b, taken b, fallThrough b, mirInsns b)) (blockList ?cu)
      = [(DALVIK_BYTECODE, 0, Some 2, Some 1,
          [\<lparr>dalvikInsn = \<lparr>vA = 0, vB = 5, vC = 5, opCode = OP_IF_EQZ\<rparr>, width = 2, offset = 0\<rparr>]),
         (DALVIK_BYTECODE, 2, Some 2, Some 3,
          [\<lparr>dalvikInsn = \<lparr>vA = 0, vB = 0, vC = 0, opCode = OP_NOP\<rparr>, width = 1, offset = 2\<rparr>,
           \<lparr>dalvikInsn = \<lparr>vA = 0, vB = 0, vC = 0, opCode = OP_NOP\<rparr>, width = 1, offset = 3\<rparr>,
           \<lparr>dalvikInsn = \<lparr>vA = 0, vB = 0x6e, vC = 0x6e, opCode = OP_NOP\<rparr>, width = 1, offset = 4\<rparr>,
           \<lparr>dalvikInsn = \<lparr>vA = 0, vB = 0, vC = 0, opCode = OP_INVOKE_VIRTUAL\<rparr>, width = 3, offset = 5\<rparr>]),
         (CHAINING_CELL_NORMAL, 5, None, None, []),
         (CHAINING_CELL_HOT, 8, None, None, []),
         (PC_RECONSTRUCTION, 0, None, None, []),
         (EXCEPTION_HANDLING, 0, None, None, [])]"
    by code_simp
  then have sm: "map (\<lambda>b. (blockType b, startOffset b, taken b, fallThrough b, mirInsns b)) (blockList cu)
      = [(DALVIK_BYTECODE, 0, Some 2, Some 1,
          [\<lparr>dalvikInsn = \<lparr>vA = 0, vB = 5, vC = 5, opCode = OP_IF_EQZ\<rparr>, width = 2, offset = 0\<rparr>]),
         (DALVIK_BYTECODE, 2, Some 2, Some 3,
          [\<lparr>dalvikInsn = \<lparr>vA = 0, vB = 0, vC = 0, opCode = OP_NOP\<rparr>, width = 1, offset = 2\<rparr>,
           \<lparr>dalvikInsn = \<lparr>vA = 0, vB = 0, vC = 0, opCode = OP_NOP\<rparr>, width = 1, offset = 3\<rparr>,
           \<lparr>dalvikInsn = \<lparr>vA = 0, vB = 0x6e, vC = 0x6e, opCode = OP_NOP\<rparr>, width = 1, offset = 4\<rparr>,
           \<lparr>dalvikInsn = \<lparr>vA = 0, vB = 0, vC = 0, opCode = OP_INVOKE_VIRTUAL\<rparr>, width = 3, offset = 5\<rparr>]),
         (CHAINING_CELL_NORMAL, 5, None, None, []),
         (CHAINING_CELL_HOT, 8, None, None, []),
         (PC_RECONSTRUCTION, 0, None, None, []),
         (EXCEPTION_HANDLING, 0, None, None, [])]"
    unfolding e .
  have len: "length (blockList cu) = 6" using arg_cong [OF sm, of length] by simp
  have nth: "(\<lambda>b. (blockType b, startOffset b, taken b, fallThrough b, mirInsns b)) (blockList cu ! k)
      = [(DALVIK_BYTECODE, 0, Some 2, Some 1,
          [\<lparr>dalvikInsn = \<lparr>vA = 0, vB = 5, vC = 5, opCode = OP_IF_EQZ\<rparr>, width = 2, offset = 0\<rparr>]),
         (DALVIK_BYTECODE, 2, Some 2, Some 3,
          [\<lparr>dalvikInsn = \<lparr>vA = 0, vB = 0, vC = 0, opCode = OP_NOP\<rparr>, width = 1, offset = 2\<rparr>,
           \<lparr>dalvikInsn = \<lparr>vA = 0, vB = 0, vC = 0, opCode = OP_NOP\<rparr>, width = 1, offset = 3\<rparr>,
           \<lparr>dalvikInsn = \<lparr>vA = 0, vB = 0x6e, vC = 0x6e, opCode = OP_NOP\<rparr>, width = 1, offset = 4\<rparr>,
           \<lparr>dalvikInsn = \<lparr>vA = 0, vB = 0, vC = 0, opCode = OP_INVOKE_VIRTUAL\<rparr>, width = 3, offset = 5\<rparr>]),
         (CHAINING_CELL_NORMAL, 5, None, None, []),
         (CHAINING_CELL_HOT, 8, None, None, []),
         (PC_RECONSTRUCTION, 0, None, None, []),
         (EXCEPTION_HANDLING, 0, None, None, [])] ! k" if "k < 6" for k
    using arg_cong [OF sm, of "\<lambda>xs. xs ! k"] that len by simp
  have b0: "blockType (blockList cu ! 0) = DALVIK_BYTECODE" "taken (blockList cu ! 0) = Some 2"
    "mirInsns (blockList cu ! 0) = [\<lparr>dalvikInsn = \<lparr>vA = 0, vB = 5, vC = 5, opCode = OP_IF_EQZ\<rparr>, width = 2, offset = 0\<rparr>]"
    using nth [of 0] by simp_all
  have b1: "blockType (blockList cu ! 1) = DALVIK_BYTECODE" "startOffset (blockList cu ! 1) = 2"
    "taken (blockList cu ! 1) = Some 2"
    "mirInsns (blockList cu ! 1) = [\<lparr>dalvikInsn = \<lparr>vA = 0, vB = 0, vC = 0, opCode = OP_NOP\<rparr>, width = 1, offset = 2\<rparr>,
           \<lparr>dalvikInsn = \<lparr>vA = 0, vB = 0, vC = 0, opCode = OP_NOP\<rparr>, width = 1, offset = 3\<rparr>,
           \<lparr>dalvikInsn = \<lparr>vA = 0, vB = 0x6e, vC = 0x6e, opCode = OP_NOP\<rparr>, width = 1, offset = 4\<rparr>,
           \<lparr>dalvikInsn = \<lparr>vA = 0, vB = 0, vC = 0, opCode = OP_INVOKE_VIRTUAL\<rparr>, width = 3, offset = 5\<rparr>]"
    using nth [of 1] by simp_all
  have b2: "blockType (blockList cu ! 2) = CHAINING_CELL_NORMAL" "startOffset (blockList cu ! 2) = 5"
    using nth [of 2] by simp_all
  have b3: "blockType (blockList cu ! 3) = CHAINING_CELL_HOT" using nth [of 3] by simp
  have b4: "blockType (blockList cu ! 4) = PC_RECONSTRUCTION" using nth [of 4] by simp
  have b5: "blockType (blockList cu ! 5) = EXCEPTION_HANDLING" using nth [of 5] by simp
  define L0 where "L0 = last (mirInsns (blockList cu ! 0))"
  define L1 where "L1 = last (mirInsns (blockList cu ! 1))"
  have L0: "L0 = \<lparr>dalvikInsn = \<lparr>vA = 0, vB = 5, vC = 5, opCode = OP_IF_EQZ\<rparr>, width = 2, offset = 0\<rparr>"
    unfolding L0_def b0(3) by simp
  have L1: "L1 = \<lparr>dalvikInsn = \<lparr>vA = 0, vB = 0, vC = 0, opCode = OP_INVOKE_VIRTUAL\<rparr>, width = 3, offset = 5\<rparr>"
    unfolding L1_def b1(4) by simp
  have t0: "fst (snd (findBlockBoundary (method' sharedCellTrace) L0 (offset L0) (offset L0, False, None))) = 5"
    unfolding L0 by code_simp
  have o0: "offset L0 = 0" unfolding L0 by simp
  have t1: "fst (snd (findBlockBoundary (method' sharedCellTrace) L1 (offset L1) (offset L1, False, None))) = 5"
    unfolding L1 by code_simp
  have o1: "offset L1 = 5" unfolding L1 by simp
  have op1: "opCode (dalvikInsn L1) = OP_INVOKE_VIRTUAL" unfolding L1 by simp
  have i0: "0 < length (blockList cu)" and i1: "1 < length (blockList cu)" by (simp_all add: len)
  note body0 = all [rule_format, OF i0 b0(1), unfolded Let_def, folded L0_def, unfolded t0,
      unfolded o0, THEN conjunct2]
  note body1 = all [rule_format, OF i1 b1(1), unfolded Let_def, folded L1_def, unfolded t1,
      unfolded o1, THEN conjunct2]
  have idx: "j = 1 \<or> j = 2 \<or> j = 3 \<or> j = 4 \<or> j = 5" if "0 < j" "j < 6" for j :: nat
    using that by arith
  have nf0: "\<not> (\<exists>j. inChainAt (blockList cu) 0 j \<and> startOffset (blockList cu ! j) = 5)"
  proof
    assume "\<exists>j. inChainAt (blockList cu) 0 j \<and> startOffset (blockList cu ! j) = 5"
    then obtain j where a: "inChainAt (blockList cu) 0 j" "startOffset (blockList cu ! j) = 5"
      by blast
    from a(1) have "0 < j" "j < 6" "blockType (blockList cu ! j) = DALVIK_BYTECODE"
      by (simp_all add: inChainAt_def len)
    with idx [of j] b1 b2 b3 b4 b5 a(2) show False by auto
  qed
  have f1: "\<exists>j. inChainAt (blockList cu) 1 j \<and> startOffset (blockList cu ! j) = 5"
  proof (intro exI [of _ 2] conjI)
    have "\<exists>k < 1. taken (blockList cu ! k) = Some 2 \<or> fallThrough (blockList cu ! k) = Some 2"
      using b0(2) by (intro exI [of _ 0]) simp
    then show "inChainAt (blockList cu) 1 2" by (simp add: inChainAt_def len)
    show "startOffset (blockList cu ! 2) = 5" by (rule b2)
  qed
  from body0 [THEN conjunct2, THEN conjunct1, unfolded if_not_P [OF nf0]] b0(2)
  have j0: "\<not> inChainAt (blockList cu) 0 2" by auto
  from body1 [THEN conjunct2, THEN conjunct1, unfolded if_P [OF f1]] b1(3)
  have m1: "inChainAt (blockList cu) 1 2" by auto
  from body1 [THEN conjunct2, THEN conjunct2] m1
  have ml: "2 < length (chainAt exampleDvm sharedCellTrace 100 1)" by simp
  have cl: "length (chainAt exampleDvm sharedCellTrace 100 1) = 3" by code_simp
  have r0: "\<exists>j. taken (blockList cu ! 0) = Some j \<and> 0 < j \<and> j < length (blockList cu)
            \<and> startOffset (blockList cu ! j) = 5 \<and> \<not> inChainAt (blockList cu) 0 j"
    using b0(2) b2(2) j0 len by simp
  have r1: "\<exists>j. taken (blockList cu ! 1) = Some j \<and> inChainAt (blockList cu) 1 j
            \<and> blockType (blockList cu ! j) = CHAINING_CELL_NORMAL
            \<and> startOffset (blockList cu ! j) = 5
            \<and> j < length (chainAt exampleDvm sharedCellTrace 100 1)"
    using b1(3) m1 b2 ml by simp
  from cu i1 b0(1) t0 [unfolded L0_def] o0 [unfolded L0_def] r0
    b1(1) op1 [unfolded L1_def] t1 [unfolded L1_def] o1 [unfolded L1_def] r1 cl
  show ?thesis by blast
qed

text \<open>
  The counterexample to C2 as stated: a trace of one \<^verbatim>\<open>invoke-virtual\<close> gives a
  bytecode block whose last instruction has the invoke flag and whose taken edge is
  absent.
\<close>

theorem traceAttempt_taken_counterexample:
  "\<exists>cu. traceAttempt exampleDvm exampleJit invokeVirtualTrace 100 = Inr cu
     \<and> 0 < length (blockList cu) \<and> blockType (blockList cu ! 0) = DALVIK_BYTECODE
     \<and> opCode (dalvikInsn (last (mirInsns (blockList cu ! 0)))) = OP_INVOKE_VIRTUAL
     \<and> instrFlags exampleDvm (opCode (dalvikInsn (last (mirInsns (blockList cu ! 0)))))
          AND (kInstrCanBranch OR kInstrCanSwitch OR kInstrInvoke) \<noteq> 0
     \<and> taken (blockList cu ! 0) = None"
proof -
  let ?cu = "projr (traceAttempt exampleDvm exampleJit invokeVirtualTrace 100)"
  have cu: "traceAttempt exampleDvm exampleJit invokeVirtualTrace 100 = Inr ?cu"
    by (simp add: traceAttempt_eq)
  have h: "0 < length (blockList ?cu)" "blockType (blockList ?cu ! 0) = DALVIK_BYTECODE"
    "opCode (dalvikInsn (last (mirInsns (blockList ?cu ! 0)))) = OP_INVOKE_VIRTUAL"
    "instrFlags exampleDvm (opCode (dalvikInsn (last (mirInsns (blockList ?cu ! 0)))))
          AND (kInstrCanBranch OR kInstrCanSwitch OR kInstrInvoke) \<noteq> 0"
    "taken (blockList ?cu ! 0) = None"
    by code_simp+
  from cu h show ?thesis by blast
qed

lemma traceFilter_allSingleStep:
  "allSingleStep (traceFilter gDvmJit desc cUnit) =
     (case methodTable gDvmJit of
        None \<Rightarrow> allSingleStep cUnit
      | Some table \<Rightarrow>
          if includeSelectedMethod gDvmJit
               \<noteq> (descriptor (clazz (method' desc)) @ name (method' desc) \<in> set table
                   \<or> descriptor (clazz (method' desc)) \<in> set table
                   \<or> name (method' desc) \<in> set table)
          then True else allSingleStep cUnit)"
  by (auto simp: traceFilter_def dvmHashTableLookup_def Let_def split: option.splits)

text \<open>
  C9. With a name table present, the all-single-step flag of the attempt's compilation
  unit is set exactly when the include mode differs from the result of the cascade
  (class descriptor followed by method name, or class descriptor, or method name, is in
  the table); the block list, block count and instruction count are those of the attempt
  made without a table, whose flag is clear.
\<close>

theorem traceFilter_conservative:
  assumes "methodTable gDvmJit = Some table"
  shows "\<exists>cu cu0. traceAttempt gDvm gDvmJit desc numMaxInsts = Inr cu
     \<and> traceAttempt gDvm (gDvmJit\<lparr>methodTable := None\<rparr>) desc numMaxInsts = Inr cu0
     \<and> allSingleStep cu =
          (includeSelectedMethod gDvmJit
             \<noteq> (descriptor (clazz (method' desc)) @ name (method' desc) \<in> set table
                 \<or> descriptor (clazz (method' desc)) \<in> set table
                 \<or> name (method' desc) \<in> set table))
     \<and> \<not> allSingleStep cu0
     \<and> blockList cu = blockList cu0 \<and> numBlocks cu = numBlocks cu0 \<and> numInsts cu = numInsts cu0"
  unfolding traceAttempt_eq
  using assms by (simp add: traceFilter_allSingleStep)

theorem traceFilter_conservative_witness:
  "\<exists>cu cu0. traceAttempt exampleDvm excludeFoo branchTrace 100 = Inr cu
     \<and> traceAttempt exampleDvm (excludeFoo\<lparr>methodTable := None\<rparr>) branchTrace 100 = Inr cu0
     \<and> allSingleStep cu \<and> \<not> allSingleStep cu0 \<and> blockList cu = blockList cu0"
proof -
  have t: "methodTable excludeFoo = Some [''LBar;'', ''LFoo;'']"
    by (simp add: excludeFoo_def)
  have f: "(includeSelectedMethod excludeFoo
             \<noteq> (descriptor (clazz (method' branchTrace)) @ name (method' branchTrace)
                   \<in> set [''LBar;'', ''LFoo;'']
                 \<or> descriptor (clazz (method' branchTrace)) \<in> set [''LBar;'', ''LFoo;'']
                 \<or> name (method' branchTrace) \<in> set [''LBar;'', ''LFoo;'']))"
    by (simp add: excludeFoo_def branchTrace_def exampleTrace_def exampleMethod_def)
  from traceFilter_conservative [OF t, of exampleDvm branchTrace 100] f
  show ?thesis by blast
qed

subsection \<open>The trace builder: the retry with a smaller budget\<close>

lemma scanTrace_count:
  "cuNumInsts s < cuNumInsts (scanTrace gDvm desc numMaxInsts s)
   \<and> cuNumInsts (scanTrace gDvm desc numMaxInsts s) \<le> max (cuNumInsts s + 1) numMaxInsts"
proof (induction gDvm desc numMaxInsts s rule: scanTrace.induct)
  case (1 gDvm desc numMaxInsts s)
  let ?curBB = "length (chain s) - 1"
  let ?parsed = "parseInsn gDvm (insns (dexCode (method' desc))) (codePtr s)"
  let ?insn = "\<lparr>dalvikInsn = fst ?parsed, width = snd ?parsed, offset = curOffset s\<rparr>"
  let ?s1 = "s\<lparr>traceSize := traceSize s + snd ?parsed,
                 chain := (chain s)[?curBB := dvmCompilerAppendMIR (chain s ! ?curBB) ?insn],
                 cuNumInsts := cuNumInsts s + 1\<rparr>"
  let ?nextRun = "trace desc (currRun ?s1 + 1)"
  let ?newBB = "(dvmCompilerNewBB DALVIK_BYTECODE)
                  \<lparr>id' := numBlocksT ?s1, startOffset := frag_startOffset ?nextRun\<rparr>"
  let ?s2 = "?s1\<lparr>chain := chain ?s1 @ [?newBB],
                        numBlocksT := numBlocksT ?s1 + 1,
                        currRun := currRun ?s1 + 1,
                        curOffset := frag_startOffset ?nextRun,
                        numInstsLeft := frag_numInsts ?nextRun,
                        codePtr := unat (frag_startOffset ?nextRun)\<rparr>"
  let ?s3 = "?s1\<lparr>numInstsLeft := numInstsLeft ?s1 - 1,
                    curOffset := curOffset ?s1 + word_of_int (snd ?parsed),
                    codePtr := codePtr ?s1 + nat (snd ?parsed)\<rparr>"
  have eq: "scanTrace gDvm desc numMaxInsts s =
      (if numMaxInsts \<le> cuNumInsts ?s1 then ?s1
       else if numInstsLeft ?s1 - 1 = 0 then
         (if frag_runEnd (trace desc (currRun ?s1)) then ?s1\<lparr>numInstsLeft := 0\<rparr>
          else scanTrace gDvm desc numMaxInsts ?s2)
       else scanTrace gDvm desc numMaxInsts ?s3)"
    by (subst scanTrace.simps) (simp only: Let_def)
  have r2: "cuNumInsts ?s2 < cuNumInsts (scanTrace gDvm desc numMaxInsts ?s2)
      \<and> cuNumInsts (scanTrace gDvm desc numMaxInsts ?s2) \<le> max (cuNumInsts ?s2 + 1) numMaxInsts"
    if "\<not> numMaxInsts \<le> cuNumInsts ?s1" "numInstsLeft ?s1 - 1 = 0"
       "\<not> frag_runEnd (trace desc (currRun ?s1))"
    using "1.IH"(1) [OF refl refl refl refl refl that refl refl] .
  have r3: "cuNumInsts ?s3 < cuNumInsts (scanTrace gDvm desc numMaxInsts ?s3)
      \<and> cuNumInsts (scanTrace gDvm desc numMaxInsts ?s3) \<le> max (cuNumInsts ?s3 + 1) numMaxInsts"
    if "\<not> numMaxInsts \<le> cuNumInsts ?s1" "numInstsLeft ?s1 - 1 \<noteq> 0"
    using "1.IH"(2) [OF refl refl refl refl refl that] .
  show ?case
    unfolding eq using r2 r3 by (auto simp del: One_nat_def)
qed

lemma scanTrace_small_budget:
  assumes "numMaxInsts \<le> cuNumInsts s + 1"
  shows "scanTrace gDvm desc numMaxInsts s = scanTrace gDvm desc (cuNumInsts s + 1) s"
  using assms by (subst (1 2) scanTrace.simps) (simp add: Let_def)

lemma traceAttempt_numInsts:
  "\<exists>cu. traceAttempt gDvm gDvmJit desc n = Inr cu \<and> 1 \<le> numInsts cu \<and> numInsts cu \<le> max 1 n"
  unfolding traceAttempt_eq
  using scanTrace_count [of "scanStart desc" gDvm desc n]
  by (simp add: scanStart_def)

lemma traceAttempt_small_budget:
  assumes "n \<le> 1"
  shows "traceAttempt gDvm gDvmJit desc n = traceAttempt gDvm gDvmJit desc 0"
proof -
  have "scanTrace gDvm desc n (scanStart desc) = scanTrace gDvm desc 0 (scanStart desc)"
    using scanTrace_small_budget [of n "scanStart desc" gDvm desc]
      scanTrace_small_budget [of 0 "scanStart desc" gDvm desc] assms
    by (simp add: scanStart_def)
  then show ?thesis
    by (simp add: traceAttempt_def)
qed

lemma sdiv_two: "1 \<le> (k::int) \<Longrightarrow> k sdiv 2 = k div 2"
  by (simp add: signed_divide_int_def)

lemma dvmCompileTrace_step:
  assumes "traceAttempt gDvm gDvmJit desc n = Inr cu"
  shows "dvmCompileTrace gDvm gDvmJit assemble desc n =
     (if \<not> asmHalveInstCount (assemble cu)
      then Some (Inr (asmBaseAddr (assemble cu) + asmHeaderSize (assemble cu)))
      else dvmCompileTrace gDvm gDvmJit assemble desc (numInsts cu sdiv 2))"
  by (subst dvmCompileTrace.simps) (simp add: assms Let_def)

lemma dvmCompileTrace_returns:
  assumes acc: "\<forall>cu. traceAttempt gDvm gDvmJit desc 0 = Inr cu \<longrightarrow> \<not> asmHalveInstCount (assemble cu)"
  shows "\<exists>r. dvmCompileTrace gDvm gDvmJit assemble desc n = Some r"
proof (induction "nat n" arbitrary: n rule: less_induct)
  case less
  from traceAttempt_numInsts [of gDvm gDvmJit desc n]
  obtain cu where cu: "traceAttempt gDvm gDvmJit desc n = Inr cu"
    and b: "1 \<le> numInsts cu" "numInsts cu \<le> max 1 n"
    by blast
  note step = dvmCompileTrace_step [OF cu, of assemble]
  show ?case
  proof (cases "asmHalveInstCount (assemble cu)")
    case False
    then show ?thesis unfolding step by simp
  next
    case True
    have big: "\<not> n \<le> 1"
    proof
      assume "n \<le> 1"
      from traceAttempt_small_budget [OF this, of gDvm gDvmJit desc] cu
      have "traceAttempt gDvm gDvmJit desc 0 = Inr cu" by simp
      with acc True show False by blast
    qed
    with b have "nat (numInsts cu sdiv 2) < nat n"
      by (simp add: sdiv_two)
    from less [OF this] True show ?thesis unfolding step by simp
  qed
qed

lemma dvmCompileTrace_rejectAll:
  "dvmCompileTrace gDvm gDvmJit rejectAll desc n = None"
proof -
  have "asm \<noteq> rejectAll" if "dvmCompileTrace gDvm gDvmJit asm desc n = Some y" for asm y
  proof (rule dvmCompileTrace.raw_induct [where P = "\<lambda>_ _ asm _ _ _. asm \<noteq> rejectAll"],
      goal_cases)
    case (1 f gDvm gDvmJit asm desc n y)
    show ?case
    proof
      assume a: "asm = rejectAll"
      from traceAttempt_numInsts [of gDvm gDvmJit desc n]
      obtain cu where cu: "traceAttempt gDvm gDvmJit desc n = Inr cu" by blast
      from 1(2) have "f gDvm gDvmJit asm desc (numInsts cu sdiv 2) = Some y"
        by (simp add: cu Let_def a rejectAll_def)
      from 1(1) [OF this] a show False by simp
    qed
  next
    show "dvmCompileTrace gDvm gDvmJit asm desc n = Some y" by (rule that)
  qed
  then show ?thesis by (cases "dvmCompileTrace gDvm gDvmJit rejectAll desc n") auto
qed

text \<open>
  C3. As stated the claim fails at a budget below 1 (the counterexample follows the
  witness). Amended: every attempt is built; when the lowering calls it too large,
  \<open>dvmCompileTrace\<close> runs the whole procedure again with half (rounded down) the
  number of instructions the attempt decoded. That budget is never negative, it is
  strictly smaller than the previous one whenever the previous one was at least 1, and it
  is 0 whenever the previous one was at most 1. The retries end, for every budget,
  provided the lowering accepts the one-instruction attempt made at budget 0.
\<close>

theorem dvmCompileTrace_retry:
  "(\<exists>cu. traceAttempt gDvm gDvmJit desc n = Inr cu
      \<and> (asmHalveInstCount (assemble cu) \<longrightarrow>
           dvmCompileTrace gDvm gDvmJit assemble desc n
             = dvmCompileTrace gDvm gDvmJit assemble desc (numInsts cu sdiv 2)
           \<and> numInsts cu sdiv 2 = numInsts cu div 2
           \<and> 0 \<le> numInsts cu sdiv 2
           \<and> (1 \<le> n \<longrightarrow> numInsts cu sdiv 2 < n)
           \<and> (n \<le> 1 \<longrightarrow> numInsts cu sdiv 2 = 0)))
   \<and> ((\<forall>cu. traceAttempt gDvm gDvmJit desc 0 = Inr cu \<longrightarrow> \<not> asmHalveInstCount (assemble cu))
        \<longrightarrow> (\<exists>r. dvmCompileTrace gDvm gDvmJit assemble desc n = Some r))"
proof -
  from traceAttempt_numInsts [of gDvm gDvmJit desc n]
  obtain cu where cu: "traceAttempt gDvm gDvmJit desc n = Inr cu"
    and b: "1 \<le> numInsts cu" "numInsts cu \<le> max 1 n"
    by blast
  have d: "numInsts cu sdiv 2 = numInsts cu div 2" using b(1) by (rule sdiv_two)
  have 1: "0 \<le> numInsts cu div 2" using b by simp
  have 2: "1 \<le> n \<longrightarrow> numInsts cu div 2 < n" using b by auto
  have 3: "n \<le> 1 \<longrightarrow> numInsts cu div 2 = 0" using b by auto
  have 4: "asmHalveInstCount (assemble cu) \<longrightarrow>
           dvmCompileTrace gDvm gDvmJit assemble desc n
             = dvmCompileTrace gDvm gDvmJit assemble desc (numInsts cu sdiv 2)"
    unfolding dvmCompileTrace_step [OF cu, of assemble] by simp
  from cu d 1 2 3 4 dvmCompileTrace_returns [of gDvm gDvmJit desc assemble n]
  show ?thesis by auto
qed

theorem dvmCompileTrace_retry_witness:
  "(\<exists>cu. traceAttempt exampleDvm exampleJit branchTrace 2 = Inr cu
      \<and> asmHalveInstCount (rejectAll cu) \<and> (1::int) \<le> 2
      \<and> numInsts cu sdiv 2 = 1 \<and> numInsts cu sdiv 2 < 2)
   \<and> (\<exists>cu. traceAttempt exampleDvm exampleJit branchTrace 0 = Inr cu
         \<and> \<not> asmHalveInstCount
              ((\<lambda>cu. \<lparr>asmHalveInstCount = (1 < numInsts cu), asmBaseAddr = 0x1000,
                       asmHeaderSize = 4\<rparr>) cu))
   \<and> (\<exists>r. dvmCompileTrace exampleDvm exampleJit
              (\<lambda>cu. \<lparr>asmHalveInstCount = (1 < numInsts cu), asmBaseAddr = 0x1000,
                      asmHeaderSize = 4\<rparr>) branchTrace 2 = Some r)"
proof -
  let ?asm = "\<lambda>cu. \<lparr>asmHalveInstCount = (1 < numInsts cu), asmBaseAddr = 0x1000,
                      asmHeaderSize = 4\<rparr>"
  let ?cu2 = "projr (traceAttempt exampleDvm exampleJit branchTrace 2)"
  let ?cu0 = "projr (traceAttempt exampleDvm exampleJit branchTrace 0)"
  have a2: "traceAttempt exampleDvm exampleJit branchTrace 2 = Inr ?cu2"
    and a0: "traceAttempt exampleDvm exampleJit branchTrace 0 = Inr ?cu0"
    by (simp_all add: traceAttempt_eq)
  have n2: "numInsts ?cu2 = 2" and n0: "numInsts ?cu0 = 1"
    by code_simp+
  have acc: "\<forall>cu. traceAttempt exampleDvm exampleJit branchTrace 0 = Inr cu
      \<longrightarrow> \<not> asmHalveInstCount (?asm cu)"
  proof (intro allI impI)
    fix cu
    assume "traceAttempt exampleDvm exampleJit branchTrace 0 = Inr cu"
    then have "cu = ?cu0" by simp
    with n0 show "\<not> asmHalveInstCount (?asm cu)" by simp
  qed
  from dvmCompileTrace_retry [of exampleDvm exampleJit branchTrace 2 rejectAll]
  obtain cu where cu: "traceAttempt exampleDvm exampleJit branchTrace 2 = Inr cu"
    and lt: "asmHalveInstCount (rejectAll cu) \<longrightarrow> (1 \<le> (2::int) \<longrightarrow> numInsts cu sdiv 2 < 2)"
    by blast
  from cu have e: "cu = ?cu2" by simp
  have nc: "numInsts cu = 2" using n2 e by simp
  have h: "asmHalveInstCount (rejectAll cu)" by (simp add: rejectAll_def)
  have "numInsts cu sdiv 2 = 1" using nc by (simp add: signed_divide_int_def)
  with cu lt h have first: "\<exists>cu. traceAttempt exampleDvm exampleJit branchTrace 2 = Inr cu
      \<and> asmHalveInstCount (rejectAll cu) \<and> (1::int) \<le> 2
      \<and> numInsts cu sdiv 2 = 1 \<and> numInsts cu sdiv 2 < 2"
    by auto
  from dvmCompileTrace_retry [of exampleDvm exampleJit branchTrace 2 ?asm] acc
  have last: "\<exists>r. dvmCompileTrace exampleDvm exampleJit ?asm branchTrace 2 = Some r"
    by blast
  have "\<not> asmHalveInstCount (?asm ?cu0)" using n0 by simp
  with a0 have mid: "\<exists>cu. traceAttempt exampleDvm exampleJit branchTrace 0 = Inr cu
         \<and> \<not> asmHalveInstCount (?asm cu)"
    by blast
  from first mid last show ?thesis by blast
qed

text \<open>
  The counterexample to C3 as stated: an attempt with budget 0 still decodes one
  instruction, so when the lowering calls it too large the retry runs with budget
  1 / 2 = 0 again: the budget is not smaller, and with a lowering that calls every attempt
  too large \<open>dvmCompileTrace\<close> does not return from any budget.
\<close>

theorem dvmCompileTrace_retry_counterexample:
  "(\<exists>cu. traceAttempt exampleDvm exampleJit branchTrace 0 = Inr cu
       \<and> asmHalveInstCount (rejectAll cu)
       \<and> dvmCompileTrace exampleDvm exampleJit rejectAll branchTrace 0
           = dvmCompileTrace exampleDvm exampleJit rejectAll branchTrace (numInsts cu sdiv 2)
       \<and> \<not> numInsts cu sdiv 2 < 0)
   \<and> dvmCompileTrace exampleDvm exampleJit rejectAll branchTrace 100 = None"
proof -
  from traceAttempt_numInsts [of exampleDvm exampleJit branchTrace 0]
  obtain cu where cu: "traceAttempt exampleDvm exampleJit branchTrace 0 = Inr cu"
    and b: "1 \<le> numInsts cu" "numInsts cu \<le> max 1 0"
    by blast
  have h: "asmHalveInstCount (rejectAll cu)" by (simp add: rejectAll_def)
  have r: "\<not> numInsts cu sdiv 2 < 0" using b by (simp add: sdiv_two)
  from cu h r dvmCompileTrace_step [OF cu, of rejectAll] dvmCompileTrace_rejectAll
  show ?thesis by auto
qed

subsection \<open>The method builder\<close>

text \<open>
  The expected block count is the number of set bits, less one when the bit at the code
  length is set.
\<close>

lemma expectedBlocks_eq:
  "expectedBlocks meth bits =
     dvmCountSetBits bits - (if dvmIsBitSet bits (insnsSize (dexCode meth)) then 1 else 0)"
  by (simp add: expectedBlocks_def Let_def)

text \<open>
  When the splitting loop runs to its end, a count that differs from the expected one
  ends the compilation with the logged abort, and a compilation unit is only ever
  returned with the expected count.
\<close>

lemma dvmCompileMethod_count_check:
  assumes "scanMethod gDvm meth (methodStart meth) = Some s"
    and "splitLoop (bbStartAddr s) (nat (expectedBlocks meth (bbStartAddr s))) 0 (splitStart s) = Inr st"
  shows "(cuNumBlocks st \<noteq> expectedBlocks meth (bbStartAddr s) \<longrightarrow>
            dvmCompileMethod gDvm meth
              = Some (Inl (AbortBlockCount (expectedBlocks meth (bbStartAddr s)) (cuNumBlocks st))))
       \<and> (\<forall>cu. dvmCompileMethod gDvm meth = Some (Inr cu) \<longrightarrow>
              numBlocks cu = expectedBlocks meth (bbStartAddr s))"
  using assms by (auto simp: dvmCompileMethod_def Let_def split: sum.splits)

text \<open>
  C5. The expected count is computed as the claim says, and the check after the splitting
  loop aborts on a mismatch. But the loop before the check runs over the expected count
  and reads \<^verbatim>\<open>blockList[i]\<close> up to it: where fewer blocks are discovered than
  expected, it reads a slot that was never filled and follows the null pointer before
  the check is reached. In the method below a branch targets the middle of an
  instruction: 4 blocks are expected, the first three iterations discover the 3 there
  are, and the fourth reads the null slot 3; the compilation ends there and not in the
  logged abort.
\<close>

theorem dvmCompileMethod_mismatch_null:
  "\<exists>s st. scanMethod exampleDvm midBranchMethod (methodStart midBranchMethod) = Some s
      \<and> expectedBlocks midBranchMethod (bbStartAddr s) = 4
      \<and> splitLoop (bbStartAddr s) 3 0 (splitStart s) = Inr st
      \<and> cuNumBlocks st = 3
      \<and> blockListM st 3 = None
      \<and> splitLoop (bbStartAddr s) 4 0 (splitStart s) = Inl NullPointer
      \<and> dvmCompileMethod exampleDvm midBranchMethod = Some (Inl NullPointer)"
proof -
  let ?s = "the (scanMethod exampleDvm midBranchMethod (methodStart midBranchMethod))"
  let ?st = "projr (splitLoop (bbStartAddr ?s) 3 0 (splitStart ?s))"
  have 1: "scanMethod exampleDvm midBranchMethod (methodStart midBranchMethod) = Some ?s"
    by code_simp
  have 2: "expectedBlocks midBranchMethod (bbStartAddr ?s) = 4"
    by code_simp
  have "\<not> isl (splitLoop (bbStartAddr ?s) 3 0 (splitStart ?s))"
    by code_simp
  then have 3: "splitLoop (bbStartAddr ?s) 3 0 (splitStart ?s) = Inr ?st"
    by (cases "splitLoop (bbStartAddr ?s) 3 0 (splitStart ?s)") simp_all
  have 4: "cuNumBlocks ?st = 3" "blockListM ?st 3 = None"
    by code_simp+
  have "case splitLoop (bbStartAddr ?s) 4 0 (splitStart ?s) of
          Inl f \<Rightarrow> f = NullPointer | Inr st \<Rightarrow> False"
    by code_simp
  then have 5: "splitLoop (bbStartAddr ?s) 4 0 (splitStart ?s) = Inl NullPointer"
    by (cases "splitLoop (bbStartAddr ?s) 4 0 (splitStart ?s)") simp_all
  have 6: "dvmCompileMethod exampleDvm midBranchMethod = Some (Inl NullPointer)"
    by code_simp
  from 1 2 3 4 5 6 show ?thesis by blast
qed

lemma dvmCompileMethod_empty:
  "dvmCompileMethod exampleDvm (exampleMethod []) = Some (Inl (AbortBlockCount 0 1))"
  by code_simp

lemma splitBlock_inv:
  assumes "splitBlock bits i st = Inr st'"
    and "\<forall>k \<ge> nat (cuNumBlocks st). blockListM st k = None" "1 \<le> cuNumBlocks st"
  shows "int i < cuNumBlocks st \<and> cuNumBlocks st \<le> cuNumBlocks st'
     \<and> (\<forall>k \<ge> nat (cuNumBlocks st'). blockListM st' k = None)"
proof -
  from assms(1) obtain curBB where c: "blockListM st i = Some curBB"
    by (auto simp: splitBlock_def split: option.splits)
  have i: "int i < cuNumBlocks st"
  proof (rule ccontr)
    assume "\<not> int i < cuNumBlocks st"
    then have "nat (cuNumBlocks st) \<le> i" by simp
    with assms(2) c show False by simp
  qed
  from assms(1) c have "st' = st \<or> (cuNumBlocks st' = cuNumBlocks st + 1
      \<and> (\<forall>k. k \<noteq> i \<longrightarrow> k \<noteq> nat (cuNumBlocks st) \<longrightarrow> blockListM st' k = blockListM st k))"
    by (auto simp: splitBlock_def Let_def split: list.splits sum.splits option.splits)
  then show ?thesis
  proof
    assume "st' = st"
    with i assms(2) show ?thesis by simp
  next
    assume "cuNumBlocks st' = cuNumBlocks st + 1
      \<and> (\<forall>k. k \<noteq> i \<longrightarrow> k \<noteq> nat (cuNumBlocks st) \<longrightarrow> blockListM st' k = blockListM st k)"
    then have n: "cuNumBlocks st' = cuNumBlocks st + 1"
      and bl: "\<And>k. k \<noteq> i \<Longrightarrow> k \<noteq> nat (cuNumBlocks st) \<Longrightarrow> blockListM st' k = blockListM st k"
      by blast+
    have "blockListM st' k = None" if "k \<ge> nat (cuNumBlocks st')" for k
    proof -
      from that n assms(3) have k: "k \<ge> nat (cuNumBlocks st)" "k \<noteq> nat (cuNumBlocks st)" by auto
      moreover from this i have "k \<noteq> i" by auto
      ultimately show ?thesis using assms(2) bl by simp
    qed
    with i n show ?thesis by simp
  qed
qed

lemma splitLoop_inv:
  assumes "splitLoop bits r i st = Inr st'"
    and "\<forall>k \<ge> nat (cuNumBlocks st). blockListM st k = None" "1 \<le> cuNumBlocks st"
  shows "cuNumBlocks st \<le> cuNumBlocks st' \<and> (0 < r \<longrightarrow> int (i + r) \<le> cuNumBlocks st')"
  using assms
proof (induction r arbitrary: i st)
  case 0
  then show ?case by simp
next
  case (Suc r)
  from Suc.prems(1) obtain st1 where s1: "splitBlock bits i st = Inr st1"
    and s2: "splitLoop bits r (Suc i) st1 = Inr st'"
    by (auto split: sum.splits)
  from splitBlock_inv [OF s1 Suc.prems(2,3)]
  have a: "int i < cuNumBlocks st" "cuNumBlocks st \<le> cuNumBlocks st1"
    "\<forall>k \<ge> nat (cuNumBlocks st1). blockListM st1 k = None"
    by blast+
  from a(2) Suc.prems(3) have b: "1 \<le> cuNumBlocks st1" by simp
  from Suc.IH [OF s2 a(3) b]
  have c: "cuNumBlocks st1 \<le> cuNumBlocks st'" "0 < r \<longrightarrow> int (Suc i + r) \<le> cuNumBlocks st'"
    by blast+
  from a c show ?case by (cases "0 < r") auto
qed

lemma findStart_fault: "findStart bl off r j = Inl f \<Longrightarrow> f = NullPointer"
  by (induction r arbitrary: j) (auto split: option.splits list.splits if_splits)

lemma findSplit_fault: "findSplit bits bl cuNum k ms = Inl f \<Longrightarrow> f = NullPointer"
  by (induction ms arbitrary: k)
    (auto split: sum.splits if_splits dest: findStart_fault)

lemma splitBlock_fault: "splitBlock bits i st = Inl f \<Longrightarrow> f = NullPointer"
  by (auto simp: splitBlock_def Let_def split: option.splits list.splits sum.splits
      dest: findSplit_fault)

lemma splitLoop_fault: "splitLoop bits r i st = Inl f \<Longrightarrow> f = NullPointer"
  by (induction r arbitrary: i st) (auto split: sum.splits dest: splitBlock_fault)

lemma findTarget_fault: "findTarget bl target r j = Inl f \<Longrightarrow> f = NullPointer"
  by (induction r arbitrary: j) (auto split: option.splits list.splits if_splits)

lemma linkTaken_fault:
  "linkTaken meth n i bl = Inl f \<Longrightarrow> f = NullPointer \<or> (\<exists>a b. f = AbortTargetNotFound a b)"
  by (auto simp: linkTaken_def Let_def split: option.splits list.splits sum.splits if_splits
      dest: findTarget_fault)

lemma linkLoop_fault:
  "linkLoop meth n r i bl = Inl f \<Longrightarrow> f = NullPointer \<or> (\<exists>a b. f = AbortTargetNotFound a b)"
  by (induction r arbitrary: i bl) (auto split: sum.splits dest: linkTaken_fault)

text \<open>
  The logged abort is reached only with more blocks discovered than expected (as for a
  method without code: 0 expected, the first block counted); with fewer, never.
\<close>

lemma dvmCompileMethod_abort_only_above:
  assumes "dvmCompileMethod gDvm meth = Some (Inl (AbortBlockCount n d))"
  shows "n < d"
proof -
  from assms obtain s where s: "scanMethod gDvm meth (methodStart meth) = Some s"
    by (auto simp: dvmCompileMethod_def split: option.splits)
  let ?n = "expectedBlocks meth (bbStartAddr s)"
  from assms s obtain st where st: "splitLoop (bbStartAddr s) (nat ?n) 0 (splitStart s) = Inr st"
    and ne: "?n \<noteq> cuNumBlocks st" and nd: "n = ?n" "d = cuNumBlocks st"
    by (auto simp: dvmCompileMethod_def Let_def split: sum.splits if_splits
        dest: splitLoop_fault linkLoop_fault)
  have init: "\<forall>k \<ge> nat (cuNumBlocks (splitStart s)). blockListM (splitStart s) k = None"
    "1 \<le> cuNumBlocks (splitStart s)"
    by (simp_all add: splitStart_def)
  from splitLoop_inv [OF st init]
  have "1 \<le> cuNumBlocks st" "0 < nat ?n \<longrightarrow> int (nat ?n) \<le> cuNumBlocks st"
    by (simp_all add: splitStart_def)
  then have "?n \<le> cuNumBlocks st" by (cases "0 < ?n") auto
  with ne nd show ?thesis by simp
qed

text \<open>
  What the width 0 of inline data does to the method builder: its first loop stays at an
  instruction of width 0, so a method that holds inline data is never compiled.
\<close>

lemma scanMethod_width_zero:
  assumes w: "snd (parseInsn gDvm (insns (dexCode meth)) p) = 0" and p: "p < insnsSize (dexCode meth)"
  shows "codePtrM s = p \<Longrightarrow> scanMethod gDvm meth s = None"
proof -
  have "gDvm = gDvm \<longrightarrow> meth = meth \<longrightarrow> codePtrM s \<noteq> p"
    if "scanMethod gDvm meth s = Some y" for s y
  proof (rule scanMethod.raw_induct
      [where P = "\<lambda>g m s y. g = gDvm \<longrightarrow> m = meth \<longrightarrow> codePtrM s \<noteq> p"], goal_cases)
    case (1 f g m s y)
    show ?case
    proof (intro impI notI)
      assume g: "g = gDvm" and m: "m = meth" and c: "codePtrM s = p"
      from 1(2) g m c p have "f gDvm meth (scanMethodStep gDvm meth s) = Some y"
        by simp
      from 1(1) [OF this] have "codePtrM (scanMethodStep gDvm meth s) \<noteq> p" by simp
      with w c show False by (simp add: scanMethodStep_def Let_def)
    qed
  next
    show "scanMethod gDvm meth s = Some y" by (rule that)
  qed
  then show "codePtrM s = p \<Longrightarrow> scanMethod gDvm meth s = None"
    by (cases "scanMethod gDvm meth s") auto
qed

lemma dvmCompileMethod_inline_data_hangs:
  "dvmCompileMethod exampleDvm packedSwitchMethod = None"
proof -
  let ?s0 = "methodStart packedSwitchMethod"
  let ?s2 = "scanMethodStep exampleDvm packedSwitchMethod
               (scanMethodStep exampleDvm packedSwitchMethod ?s0)"
  have c: "codePtrM ?s0 < insnsSize (dexCode packedSwitchMethod)"
    "codePtrM (scanMethodStep exampleDvm packedSwitchMethod ?s0)
       < insnsSize (dexCode packedSwitchMethod)"
    "codePtrM ?s2 = 4" "4 < insnsSize (dexCode packedSwitchMethod)"
    "snd (parseInsn exampleDvm (insns (dexCode packedSwitchMethod)) 4) = 0"
    by code_simp+
  have "scanMethod exampleDvm packedSwitchMethod ?s0 = scanMethod exampleDvm packedSwitchMethod ?s2"
    using c(1,2) by (subst scanMethod.simps, simp, subst scanMethod.simps, simp)
  also have "\<dots> = None"
    using scanMethod_width_zero [OF c(5) c(4) c(3)] .
  finally show ?thesis by (simp add: dvmCompileMethod_def)
qed

end
